theory Spec2Isabelle
  imports Complex_Main "HOL-Library.Word"
begin

unbundle bit_operations_syntax

section \<open>The BINRPC codec of go-kamailio-binrpc (module version v3)\<close>

text \<open>
  This theory embeds the codec of package \<^verbatim>\<open>binrpc\<close>, module
  \<^verbatim>\<open>github.com/florentchauveau/go-kamailio-binrpc/v3\<close> (the file that declares
  \<^verbatim>\<open>Header.Cookie uint32\<close>, \<^verbatim>\<open>TypeDouble\<close> handling and the generic
  \<^verbatim>\<open>WritePacket[T ValidTypes]\<close>). The two older module versions kept in the
  repository (cookie as a byte slice, structs as Go maps) are not the subject.

  Conventions of the embedding:
  \<^item> Go \<^verbatim>\<open>int\<close> is the 64-bit machine integer of the usual platforms and is a
    \<open>64 word\<close> wherever its value can wrap (record values, arguments of the sizing
    functions). Byte counts (\<^verbatim>\<open>record.size\<close>, \<^verbatim>\<open>PayloadLength\<close>, lengths of
    slices) are bounded by the amount of data held in memory and are \<open>int\<close> or \<open>nat\<close>.
  \<^item> A Go \<^verbatim>\<open>string\<close> is its sequence of bytes.
  \<^item> \<^verbatim>\<open>float64\<close> is an abstract type \<open>'f\<close>; the two floating-point computations of
    the source, \<^verbatim>\<open>float64(n) / 1000.0\<close> and \<^verbatim>\<open>int(v * 1000)\<close>, are parameters
    \<open>fdiv\<close> and \<open>fmul\<close> of the functions that perform them.
  \<^item> An \<^verbatim>\<open>io.Reader\<close> is a \<^verbatim>\<open>bytes.Reader\<close>: the list of bytes not yet read.
    An \<^verbatim>\<open>io.Writer\<close> is an in-memory buffer that never fails.
  \<^item> Every \<^verbatim>\<open>return nil, err\<close> is a value \<open>Inl e\<close> of type \<open>error\<close>.
\<close>

type_synonym byte = "8 word"
type_synonym int64 = "64 word"
type_synonym uint32 = "32 word"

subsection \<open>Constants\<close>

definition BinRPCMagic :: byte where "BinRPCMagic = 0xA"
definition BinRPCVersion :: byte where "BinRPCVersion = 0x1"
definition TypeInt :: byte where "TypeInt = 0x0"
definition TypeString :: byte where "TypeString = 0x1"
definition TypeDouble :: byte where "TypeDouble = 0x2"
definition TypeStruct :: byte where "TypeStruct = 0x3"
definition TypeArray :: byte where "TypeArray = 0x4"
definition TypeAVP :: byte where "TypeAVP = 0x5"
definition TypeBytes :: byte where "TypeBytes = 0x6"
definition MaxSizeOfLength :: nat where "MaxSizeOfLength = 4"

lemmas Type_defs =
  TypeInt_def TypeString_def TypeDouble_def TypeStruct_def TypeArray_def TypeAVP_def
  TypeBytes_def

subsection \<open>Errors\<close>

text \<open>
  The source builds its errors with \<^verbatim>\<open>errors.New\<close> and \<^verbatim>\<open>fmt.Errorf\<close>; one
  constructor stands for each message. \<open>ErrRead\<close> and \<open>ErrShort\<close> carry the place of the
  failed read (\<^verbatim>\<open>cannot read header\<close>, \<^verbatim>\<open>cannot read record size\<close>, ...), the latter
  with the two counts of \<^verbatim>\<open>read=%d/%d\<close>. \<open>errEndOfStruct\<close> is the package's internal
  sentinel error.
\<close>

datatype ioerr = EOF | ErrUnexpectedEOF

datatype site = SHeader | STotalLength | SCookie | SRecordHeader | SRecordSize | SRecordValue

datatype error =
    ErrRead site ioerr
  | ErrShort site nat nat
  | ErrMagic byte
  | ErrVersion byte
  | errEndOfStruct
  | ErrNotAVP byte
  | ErrTypeNotImplemented byte
  | ErrCookieMismatch
  | ErrIO ioerr
  | ErrMissingValues
  | ErrPacketLengthTooBig nat
  | ErrExpectedInt
  | ErrExpectedString
  | ErrExpectedFloat64
  | ErrCreateRecord
  | PanicTypeAssertion

subsection \<open>Header, Record, StructItem\<close>

record Header =
  PayloadLength :: int
  Cookie :: uint32

text \<open>
  \<^verbatim>\<open>Record{size int; Type uint8; Value any}\<close> and
  \<^verbatim>\<open>StructItem{Key string; Value Record}\<close>. The dynamic \<^verbatim>\<open>Value\<close> holds nothing
  (\<open>VNil\<close>), an \<^verbatim>\<open>int\<close>, a \<^verbatim>\<open>string\<close>, a \<^verbatim>\<open>float64\<close> or a
  \<^verbatim>\<open>[]StructItem\<close>.
\<close>

datatype 'f Value =
    VNil
  | VInt int64
  | VString "byte list"
  | VDouble 'f
  | VStruct "'f StructItem list"
and 'f Record = Record (rec_size: int) (rec_Type: byte) (rec_Value: "'f Value")
and 'f StructItem = StructItem (Key: "byte list") (item_Value: "'f Record")

subsection \<open>getMinBinarySizeOfInt and intToBytesBE\<close>

text \<open>
  \<^verbatim>\<open>n := uint32(value); for size = 4; size > 0 && ((n & (0xff << 24)) == 0); size-- { n <<= 8 }\<close>.
  The counter is a \<^verbatim>\<open>uint8\<close> that only takes the values 4 down to 0.
\<close>

fun minSizeLoop :: "nat \<Rightarrow> uint32 \<Rightarrow> nat" where
  "minSizeLoop 0 n = 0"
| "minSizeLoop (Suc s) n =
     (if n AND push_bit 24 0xff = 0 then minSizeLoop s (push_bit 8 n) else Suc s)"

definition getMinBinarySizeOfInt :: "int64 \<Rightarrow> nat" where
  "getMinBinarySizeOfInt v = minSizeLoop 4 (ucast v)"

text \<open>
  \<^verbatim>\<open>for ; size > 0; size-- { bytes[size-1] = byte(n); n >>= 8 }\<close> on the slice
  \<^verbatim>\<open>make([]byte, size)\<close>; \<^verbatim>\<open>>>\<close> on a signed \<^verbatim>\<open>int\<close> is the arithmetic shift.
\<close>

fun fillBE :: "nat \<Rightarrow> int64 \<Rightarrow> byte list \<Rightarrow> byte list" where
  "fillBE 0 n bytes = bytes"
| "fillBE (Suc s) n bytes = fillBE s (signed_drop_bit 8 n) (bytes[s := ucast n])"

definition intToBytesBE :: "int64 \<Rightarrow> byte list" where
  "intToBytesBE n = (let s = getMinBinarySizeOfInt n in fillBE s n (replicate s 0))"

subsection \<open>Record.Encode, CreateRecord, WritePacket\<close>

text \<open>
  The tail of \<^verbatim>\<open>Encode\<close>: the header byte, the explicit size when the value has 8
  bytes or more, and the value. \<^verbatim>\<open>byte(sizeOfValue<<4)\<close> and
  \<^verbatim>\<open>uint8(len(sizeBytes)<<4)\<close> truncate to 8 bits.
\<close>

definition encodeFrame :: "byte \<Rightarrow> byte list \<Rightarrow> byte list" where
  "encodeFrame ty val =
     (let sizeOfValue = length val in
      if sizeOfValue < 8 then (push_bit 4 (of_nat sizeOfValue) OR ty) # val
      else
        let sizeBytes = intToBytesBE (of_nat sizeOfValue) in
        (push_bit 7 1 OR push_bit 4 (of_nat (length sizeBytes)) OR ty) # sizeBytes @ val)"

text \<open>
  \<open>Encode fmul record\<close> is the bytes \<^verbatim>\<open>record.Encode(w)\<close> writes to \<open>w\<close>, or the error
  it returns (then nothing was written). \<open>fmul v\<close> stands for \<^verbatim>\<open>int(v * 1000)\<close>.
\<close>

definition Encode :: "('f \<Rightarrow> int64) \<Rightarrow> 'f Record \<Rightarrow> error + byte list" where
  "Encode fmul record =
     (if rec_Type record = TypeInt then
        (case rec_Value record of
           VInt v \<Rightarrow> if v = 0 then Inr [0x00] else Inr (encodeFrame TypeInt (intToBytesBE v))
         | _ \<Rightarrow> Inl ErrExpectedInt)
      else if rec_Type record = TypeString then
        (case rec_Value record of
           VString s \<Rightarrow> Inr (encodeFrame TypeString (s @ [0x00]))
         | _ \<Rightarrow> Inl ErrExpectedString)
      else if rec_Type record = TypeDouble then
        (case rec_Value record of
           VDouble v \<Rightarrow> Inr (encodeFrame TypeDouble (intToBytesBE (fmul v)))
         | _ \<Rightarrow> Inl ErrExpectedFloat64)
      else Inl (ErrTypeNotImplemented (rec_Type record)))"

text \<open>
  \<^verbatim>\<open>CreateRecord[T ValidTypes](v T)\<close>: the type constraint admits \<^verbatim>\<open>int\<close>,
  \<^verbatim>\<open>string\<close> and \<^verbatim>\<open>float64\<close> only, so the \<^verbatim>\<open>default\<close> branch is for values no
  caller can pass.
\<close>

definition CreateRecord :: "'f Value \<Rightarrow> error + 'f Record" where
  "CreateRecord v =
     (case v of
        VString s \<Rightarrow> Inr (Record 0 TypeString v)
      | VInt i \<Rightarrow> Inr (Record 0 TypeInt v)
      | VDouble d \<Rightarrow> Inr (Record 0 TypeDouble v)
      | _ \<Rightarrow> Inl ErrCreateRecord)"

text \<open>The loop \<^verbatim>\<open>for _, v := range values\<close> of \<^verbatim>\<open>WritePacket\<close>, filling \<^verbatim>\<open>payload\<close>.\<close>

fun encodeValues :: "('f \<Rightarrow> int64) \<Rightarrow> 'f Value list \<Rightarrow> byte list \<Rightarrow> error + byte list" where
  "encodeValues fmul [] payload = Inr payload"
| "encodeValues fmul (v # vs) payload =
     (case CreateRecord v of
        Inl e \<Rightarrow> Inl e
      | Inr record \<Rightarrow>
          (case Encode fmul record of
             Inl e \<Rightarrow> Inl e
           | Inr bs \<Rightarrow> encodeValues fmul vs (payload @ bs)))"

text \<open>
  \<open>WritePacket fmul cookie w values\<close>: \<open>cookie\<close> is what \<^verbatim>\<open>rand.Uint32()\<close> returns, \<open>w\<close>
  the bytes the sink holds before the call; the result is the returned cookie or error and
  the sink afterwards. The second header byte is
  \<^verbatim>\<open>byte((len(lengthBE)-1)<<2 | len(cookieBytes) - 1)\<close>, which Go parses as
  \<^verbatim>\<open>((len(lengthBE)-1)<<2 | len(cookieBytes)) - 1\<close> (\<^verbatim>\<open>|\<close> and \<^verbatim>\<open>-\<close> have the same
  precedence and associate to the left).
\<close>

definition WritePacket ::
  "('f \<Rightarrow> int64) \<Rightarrow> uint32 \<Rightarrow> byte list \<Rightarrow> 'f Value list \<Rightarrow> (error + uint32) \<times> byte list" where
  "WritePacket fmul cookie w values =
     (if length values = 0 then (Inl ErrMissingValues, w)
      else
        (case encodeValues fmul values [] of
           Inl e \<Rightarrow> (Inl e, w)
         | Inr payload \<Rightarrow>
             let cookieBytes = intToBytesBE (ucast cookie);
                 lengthBE = intToBytesBE (of_nat (length payload))
             in
               if length lengthBE > MaxSizeOfLength
               then (Inl (ErrPacketLengthTooBig (length lengthBE)), w)
               else
                 let header =
                       [push_bit 4 BinRPCMagic OR BinRPCVersion,
                        of_int ((push_bit 2 (int (length lengthBE) - 1)
                                   OR int (length cookieBytes)) - 1)]
                       @ lengthBE @ cookieBytes
                 in (Inr cookie, w @ header @ payload)))"

subsection \<open>Readers\<close>

text \<open>
  \<^verbatim>\<open>bytes.Reader.Read(p)\<close> with \<open>n = len(p)\<close>: at the end of the data it returns
  \<^verbatim>\<open>0, io.EOF\<close> (also for \<open>n = 0\<close>), otherwise it copies \<open>min n (remaining)\<close> bytes and
  returns no error. The result is the error or the bytes read, and the reader afterwards.
\<close>

definition bytes_Read :: "nat \<Rightarrow> byte list \<Rightarrow> (ioerr + byte list) \<times> byte list" where
  "bytes_Read n s = (if s = [] then (Inl EOF, s) else (Inr (take n s), drop n s))"

text \<open>
  \<^verbatim>\<open>bufio.NewReader(r)\<close> over a \<^verbatim>\<open>bytes.Reader\<close>: \<open>under\<close> is what the underlying
  reader has not delivered yet, \<open>buffered\<close> the bytes read ahead and not yet handed out.
  \<^verbatim>\<open>bufio.Reader.Read(p)\<close>, \<open>n = len(p)\<close>: with an empty buffer a request of at least
  the buffer size (4096) goes straight to the underlying reader; a smaller one fills the
  buffer with one underlying \<^verbatim>\<open>Read\<close> first; then as much as is buffered is copied, at
  most \<open>n\<close> bytes. The underlying reader reports an error only with zero bytes, so no
  error is ever left pending between calls.
\<close>

record bufio =
  under :: "byte list"
  buffered :: "byte list"

definition defaultBufSize :: nat where "defaultBufSize = 4096"

definition bufio_NewReader :: "byte list \<Rightarrow> bufio" where
  "bufio_NewReader r = \<lparr>under = r, buffered = []\<rparr>"

definition bufio_Read :: "nat \<Rightarrow> bufio \<Rightarrow> (ioerr + byte list) \<times> bufio" where
  "bufio_Read n b =
     (if n = 0 then (Inr [], b)
      else if buffered b = [] then
        (if n \<ge> defaultBufSize then
           (case bytes_Read n (under b) of
              (Inl e, s) \<Rightarrow> (Inl e, b\<lparr>under := s\<rparr>)
            | (Inr p, s) \<Rightarrow> (Inr p, b\<lparr>under := s\<rparr>))
         else
           (case bytes_Read defaultBufSize (under b) of
              (Inl e, s) \<Rightarrow> (Inl e, b\<lparr>under := s\<rparr>)
            | (Inr filled, s) \<Rightarrow> (Inr (take n filled), \<lparr>under = s, buffered = drop n filled\<rparr>)))
      else (Inr (take n (buffered b)), b\<lparr>buffered := drop n (buffered b)\<rparr>))"

lemma bufio_Read_progress:
  assumes "bufio_Read n b = (Inr p, b')" and "n \<noteq> 0"
  shows "p \<noteq> [] \<and> length p \<le> n"
  using assms
  by (auto simp: bufio_Read_def bytes_Read_def defaultBufSize_def
      split: if_splits prod.splits sum.splits)

text \<open>
  \<^verbatim>\<open>io.ReadFull(r, buf)\<close>, that is \<^verbatim>\<open>io.ReadAtLeast(r, buf, len(buf))\<close>:
  \<^verbatim>\<open>for n < min && err == nil { nn, err = r.Read(buf[n:]); n += nn }\<close>. \<open>need\<close> is
  \<^verbatim>\<open>len(buf) - n\<close>, \<open>got\<close> the part of \<^verbatim>\<open>buf\<close> filled so far. An \<^verbatim>\<open>io.EOF\<close>
  after some bytes becomes \<^verbatim>\<open>io.ErrUnexpectedEOF\<close>.
\<close>

function io_ReadFull_loop :: "nat \<Rightarrow> byte list \<Rightarrow> bufio \<Rightarrow> (ioerr + byte list) \<times> bufio" where
  "io_ReadFull_loop need got b =
     (if need = 0 then (Inr got, b)
      else
        (case bufio_Read need b of
           (Inl e, b') \<Rightarrow> (Inl (if got \<noteq> [] \<and> e = EOF then ErrUnexpectedEOF else e), b')
         | (Inr p, b') \<Rightarrow> io_ReadFull_loop (need - length p) (got @ p) b'))"
  by pat_completeness auto
termination
proof (relation "measure (\<lambda>(need, got, b). need)", goal_cases)
  case 1
  show ?case by simp
next
  case (2 need got b x y p)
  from bufio_Read_progress[of need b p y] 2 have "p \<noteq> []" by simp
  with 2 show ?case by simp
qed

definition io_ReadFull :: "nat \<Rightarrow> bufio \<Rightarrow> (ioerr + byte list) \<times> bufio" where
  "io_ReadFull n b = io_ReadFull_loop n [] b"

subsection \<open>ReadHeader\<close>

text \<open>
  \<^verbatim>\<open>ReadHeader(r io.Reader)\<close> is used on a \<^verbatim>\<open>bytes.Reader\<close> and, by
  \<^verbatim>\<open>ReadPacket\<close>, on a \<^verbatim>\<open>bufio.Reader\<close>; the reader's \<^verbatim>\<open>Read\<close> is the parameter
  \<open>Read\<close>. \<^verbatim>\<open>buf[1]&0x0C>>2 + 1\<close> is \<^verbatim>\<open>((buf[1]&0x0C)>>2) + 1\<close>.
\<close>

definition ReadHeader ::
  "(nat \<Rightarrow> 's \<Rightarrow> (ioerr + byte list) \<times> 's) \<Rightarrow> 's \<Rightarrow> (error + Header) \<times> 's" where
  "ReadHeader Read r =
     (case Read 2 r of
        (Inl e, r1) \<Rightarrow> (Inl (ErrRead SHeader e), r1)
      | (Inr hbuf, r1) \<Rightarrow>
          if length hbuf \<noteq> 2 then (Inl (ErrShort SHeader (length hbuf) 2), r1)
          else if drop_bit 4 (hbuf ! 0) \<noteq> BinRPCMagic
          then (Inl (ErrMagic (drop_bit 4 (hbuf ! 0))), r1)
          else if hbuf ! 0 AND 0x0F \<noteq> BinRPCVersion
          then (Inl (ErrVersion (hbuf ! 0 AND 0x0F)), r1)
          else
            let sizeOfLength = unat (drop_bit 2 (hbuf ! 1 AND 0x0C) + 1);
                sizeOfCookie = unat ((hbuf ! 1 AND 0x3) + 1)
            in
              (case Read sizeOfLength r1 of
                 (Inl e, r2) \<Rightarrow> (Inl (ErrRead STotalLength e), r2)
               | (Inr lbuf, r2) \<Rightarrow>
                   if length lbuf \<noteq> sizeOfLength
                   then (Inl (ErrShort STotalLength (length lbuf) sizeOfLength), r2)
                   else
                     (case Read sizeOfCookie r2 of
                        (Inl e, r3) \<Rightarrow> (Inl (ErrRead SCookie e), r3)
                      | (Inr cbuf, r3) \<Rightarrow>
                          if length cbuf \<noteq> sizeOfCookie
                          then (Inl (ErrShort SCookie (length cbuf) sizeOfCookie), r3)
                          else
                            (Inr \<lparr>PayloadLength = foldl (\<lambda>l b. push_bit 8 l + uint b) 0 lbuf,
                                  Cookie = foldl (\<lambda>c b. push_bit 8 c OR ucast b) 0 cbuf\<rparr>,
                             r3))))"

subsection \<open>ReadRecord\<close>

text \<open>
  \<^verbatim>\<open>size = size<<8 + int(b)\<close> over the bytes of the explicit size field, and
  \<^verbatim>\<open>record.Value = record.Value.(int)<<8 + int(b)\<close> over the payload; the latter wraps
  in 64 bits.
\<close>

definition be_size :: "byte list \<Rightarrow> nat" where
  "be_size sbuf = foldl (\<lambda>n b. push_bit 8 n + unat b) 0 sbuf"

definition be_int :: "byte list \<Rightarrow> int64" where
  "be_int vbuf = foldl (\<lambda>v b. push_bit 8 v + ucast b) 0 vbuf"

text \<open>
  The part of \<^verbatim>\<open>ReadRecord\<close> before the \<^verbatim>\<open>switch record.Type\<close>, in three steps:
  \<open>readSizeField\<close> is \<^verbatim>\<open>if flag == 1 { ... }\<close> and returns \<^verbatim>\<open>record.size\<close> and
  \<^verbatim>\<open>size\<close>; \<open>readValue\<close> is \<^verbatim>\<open>if size == 0 { buf = nil } else { ... }\<close>;
  \<open>readRecordHead\<close> reads the header byte, recognises the end-of-struct mark and returns
  \<^verbatim>\<open>record.size\<close>, \<^verbatim>\<open>record.Type\<close>, \<^verbatim>\<open>size\<close> and \<^verbatim>\<open>buf\<close>.
  \<^verbatim>\<open>buf[0] >> 4 & 0x7\<close> is \<^verbatim>\<open>(buf[0] >> 4) & 0x7\<close>.
\<close>

definition readSizeField :: "byte \<Rightarrow> nat \<Rightarrow> byte list \<Rightarrow> (error + int \<times> nat) \<times> byte list" where
  "readSizeField flag n r =
     (if flag = 1 then
        (case bytes_Read n r of
           (Inl e, r') \<Rightarrow> (Inl (ErrRead SRecordSize e), r')
         | (Inr buf, r') \<Rightarrow>
             if length buf \<noteq> n then (Inl (ErrShort SRecordSize (length buf) n), r')
             else (Inr (int (1 + n) + int (be_size buf), be_size buf), r'))
      else (Inr (int (1 + n), n), r))"

definition readValue :: "nat \<Rightarrow> byte list \<Rightarrow> (error + byte list) \<times> byte list" where
  "readValue n r =
     (if n = 0 then (Inr [], r)
      else
        (case bytes_Read n r of
           (Inl e, r') \<Rightarrow> (Inl (ErrRead SRecordValue e), r')
         | (Inr buf, r') \<Rightarrow>
             if length buf \<noteq> n then (Inl (ErrShort SRecordValue (length buf) n), r')
             else (Inr buf, r')))"

definition readRecordHead ::
  "byte list \<Rightarrow> (error + int \<times> byte \<times> nat \<times> byte list) \<times> byte list" where
  "readRecordHead r =
     (case bytes_Read 1 r of
        (Inl e, r1) \<Rightarrow> (Inl (ErrRead SRecordHeader e), r1)
      | (Inr buf, r1) \<Rightarrow>
          if length buf \<noteq> 1 then (Inl (ErrShort SRecordHeader (length buf) 1), r1)
          else
            let flag = drop_bit 7 (buf ! 0);
                n = unat (drop_bit 4 (buf ! 0) AND 0x7);
                ty = buf ! 0 AND 0x0F
            in
              if flag = 1 \<and> n = 0 \<and> ty = TypeStruct then (Inl errEndOfStruct, r1)
              else
                (case readSizeField flag n r1 of
                   (Inl e, r2) \<Rightarrow> (Inl e, r2)
                 | (Inr (recsize, n'), r2) \<Rightarrow>
                     (case readValue n' r2 of
                        (Inl e, r3) \<Rightarrow> (Inl e, r3)
                      | (Inr vbuf, r3) \<Rightarrow> (Inr (recsize, ty, n', vbuf), r3))))"

text \<open>
  \<open>ReadRecord\<close> with its \<^verbatim>\<open>switch\<close>, and \<open>readStructItems\<close>, the \<^verbatim>\<open>for\<close> loop of the
  \<^verbatim>\<open>TypeStruct\<close> case: \<open>recsize\<close> is \<^verbatim>\<open>record.size\<close> and \<open>items\<close> the slice built so far.
  \<^verbatim>\<open>avpName.Value.(string)\<close> panics on a value that is no string.
\<close>

function ReadRecord :: "(int64 \<Rightarrow> 'f) \<Rightarrow> byte list \<Rightarrow> (error + 'f Record) \<times> byte list"
  and readStructItems ::
    "(int64 \<Rightarrow> 'f) \<Rightarrow> int \<Rightarrow> byte \<Rightarrow> 'f StructItem list \<Rightarrow> byte list
      \<Rightarrow> (error + 'f Record) \<times> byte list"
where
  "ReadRecord fdiv r =
     (case readRecordHead r of
        (Inl e, r') \<Rightarrow> (Inl e, r')
      | (Inr (recsize, ty, len, buf), r') \<Rightarrow>
          if ty = TypeAVP \<or> ty = TypeString then
            (Inr (Record recsize ty (VString (if len = 0 then [] else butlast buf))), r')
          else if ty = TypeInt then
            (Inr (Record recsize ty (VInt (if len = 0 then 0 else be_int buf))), r')
          else if ty = TypeDouble then
            (Inr (Record recsize ty (VDouble (fdiv (be_int buf)))), r')
          else if ty = TypeStruct then readStructItems fdiv recsize ty [] r'
          else (Inl (ErrTypeNotImplemented ty), r'))"
| "readStructItems fdiv recsize ty items r =
     (case ReadRecord fdiv r of
        (Inl e, r1) \<Rightarrow>
          if e = errEndOfStruct then (Inr (Record (recsize + 1) ty (VStruct items)), r1)
          else (Inl e, r1)
      | (Inr avpName, r1) \<Rightarrow>
          if rec_Type avpName \<noteq> TypeAVP then (Inl (ErrNotAVP (rec_Type avpName)), r1)
          else
            (case ReadRecord fdiv r1 of
               (Inl e, r2) \<Rightarrow> (Inl e, r2)
             | (Inr avpValue, r2) \<Rightarrow>
                 (case rec_Value avpName of
                    VString key \<Rightarrow>
                      readStructItems fdiv (recsize + rec_size avpName + rec_size avpValue) ty
                        (items @ [StructItem key avpValue]) r2
                  | _ \<Rightarrow> (Inl PanicTypeAssertion, r2))))"
  by pat_completeness auto


text \<open>
  The termination of the two functions rests on every successful \<^verbatim>\<open>ReadRecord\<close> (and
  every one that ends on the end-of-struct mark) consuming at least its header byte.
\<close>

lemma bytes_Read_Nil [simp]: "bytes_Read n [] = (Inl EOF, [])"
  by (simp add: bytes_Read_def)

lemma bytes_Read_Cons [simp]: "bytes_Read n (b # s) = (Inr (take n (b # s)), drop n (b # s))"
  by (simp add: bytes_Read_def)

lemma bytes_Read_length:
  "bytes_Read n s = (res, y) \<Longrightarrow> length y \<le> length s"
  by (auto simp: bytes_Read_def split: if_splits)

lemma bytes_Read_exact:
  assumes "bytes_Read n s = (Inr p, y)" and "length p = n"
  shows "s = p @ y"
proof -
  from assms(1) have "p = take n s" "y = drop n s"
    by (auto simp: bytes_Read_def split: if_splits)
  then show ?thesis by simp
qed

lemma bytes_Read_Inl:
  "bytes_Read n s = (Inl e, y) \<Longrightarrow> s = [] \<and> y = [] \<and> e = EOF"
  by (auto simp: bytes_Read_def split: if_splits)

lemma readSizeField_flag:
  "readSizeField 1 n r =
     (case bytes_Read n r of
        (Inl e, r') \<Rightarrow> (Inl (ErrRead SRecordSize e), r')
      | (Inr buf, r') \<Rightarrow>
          if length buf \<noteq> n then (Inl (ErrShort SRecordSize (length buf) n), r')
          else (Inr (int (1 + n) + int (be_size buf), be_size buf), r'))"
  by (simp add: readSizeField_def)

lemma readSizeField_noflag:
  "flag \<noteq> 1 \<Longrightarrow> readSizeField flag n r = (Inr (int (1 + n), n), r)"
  by (simp add: readSizeField_def)

lemma readSizeField_Inr:
  assumes "readSizeField flag n r = (Inr (recsize, n'), y)"
  shows "recsize + int (length y) = 1 + int n' + int (length r) \<and> 1 \<le> recsize
         \<and> length y \<le> length r"
proof (cases "flag = 1")
  case True
  obtain res r' where rd: "bytes_Read n r = (res, r')" by (cases "bytes_Read n r")
  show ?thesis
  proof (cases res)
    case (Inl e)
    with rd assms True show ?thesis by (simp add: readSizeField_flag)
  next
    case (Inr buf)
    with rd assms True have len: "length buf = n" and y: "r' = y"
      and rs: "recsize = int (1 + n) + int (be_size buf)" and n': "n' = be_size buf"
      by (simp_all add: readSizeField_flag split: if_splits)
    from bytes_Read_exact[of n r buf r'] rd Inr len y have "r = buf @ y" by simp
    with len rs n' show ?thesis by auto
  qed
next
  case False
  with assms show ?thesis by (auto simp: readSizeField_noflag)
qed

lemma readSizeField_Inl:
  assumes "readSizeField flag n r = (Inl e, y)"
  shows "length y \<le> length r \<and> e \<noteq> errEndOfStruct"
proof (cases "flag = 1")
  case True
  obtain res r' where rd: "bytes_Read n r = (res, r')" by (cases "bytes_Read n r")
  from bytes_Read_length[OF rd] have "length r' \<le> length r" .
  with rd assms True show ?thesis
    by (cases res) (auto simp: readSizeField_flag split: if_splits)
next
  case False
  with assms show ?thesis by (simp add: readSizeField_noflag)
qed

lemma readValue_0 [simp]: "readValue 0 r = (Inr [], r)"
  by (simp add: readValue_def)

lemma readValue_pos:
  "n \<noteq> 0 \<Longrightarrow> readValue n r =
     (case bytes_Read n r of
        (Inl e, r') \<Rightarrow> (Inl (ErrRead SRecordValue e), r')
      | (Inr buf, r') \<Rightarrow>
          if length buf \<noteq> n then (Inl (ErrShort SRecordValue (length buf) n), r')
          else (Inr buf, r'))"
  by (simp add: readValue_def)

lemma readValue_Inr:
  assumes "readValue n r = (Inr buf, y)"
  shows "length buf = n \<and> r = buf @ y"
proof (cases "n = 0")
  case True
  with assms show ?thesis by simp
next
  case False
  obtain res r' where rd: "bytes_Read n r = (res, r')" by (cases "bytes_Read n r")
  show ?thesis
  proof (cases res)
    case (Inl e)
    with rd assms False show ?thesis by (simp add: readValue_pos)
  next
    case (Inr p)
    with rd assms False have "length p = n" "p = buf" "r' = y"
      by (simp_all add: readValue_pos split: if_splits)
    with bytes_Read_exact[of n r p r'] rd Inr show ?thesis by simp
  qed
qed

lemma readValue_Inl:
  assumes "readValue n r = (Inl e, y)"
  shows "length y \<le> length r \<and> e \<noteq> errEndOfStruct"
proof (cases "n = 0")
  case True
  with assms show ?thesis by simp
next
  case False
  obtain res r' where rd: "bytes_Read n r = (res, r')" by (cases "bytes_Read n r")
  from bytes_Read_length[OF rd] have "length r' \<le> length r" .
  with rd assms False show ?thesis
    by (cases res) (auto simp: readValue_pos split: if_splits)
qed

lemma readRecordHead_Nil [simp]: "readRecordHead [] = (Inl (ErrRead SRecordHeader EOF), [])"
  by (simp add: readRecordHead_def)

lemma readRecordHead_Cons:
  "readRecordHead (b # r1) =
     (if drop_bit 7 b = 1 \<and> unat (drop_bit 4 b AND 0x7) = 0 \<and> b AND 0x0F = TypeStruct
      then (Inl errEndOfStruct, r1)
      else
        (case readSizeField (drop_bit 7 b) (unat (drop_bit 4 b AND 0x7)) r1 of
           (Inl e, r2) \<Rightarrow> (Inl e, r2)
         | (Inr (recsize, n'), r2) \<Rightarrow>
             (case readValue n' r2 of
                (Inl e, r3) \<Rightarrow> (Inl e, r3)
              | (Inr vbuf, r3) \<Rightarrow> (Inr (recsize, b AND 0x0F, n', vbuf), r3))))"
  by (simp add: readRecordHead_def Let_def)

lemma readRecordHead_Inr:
  assumes "readRecordHead r = (Inr (recsize, t, n, buf), y)"
  shows "recsize + int (length y) = int (length r) \<and> length buf = n \<and> 1 \<le> recsize"
proof (cases r)
  case Nil
  with assms show ?thesis by simp
next
  case (Cons b r1)
  let ?flag = "drop_bit 7 b" and ?n = "unat (drop_bit 4 b AND 0x7)"
  from assms Cons obtain r2 where
    sf: "readSizeField ?flag ?n r1 = (Inr (recsize, n), r2)" and rv: "readValue n r2 = (Inr buf, y)"
    by (auto simp: readRecordHead_Cons split: prod.splits sum.splits if_splits)
  from readSizeField_Inr[OF sf] readValue_Inr[OF rv] Cons show ?thesis by auto
qed

lemma readRecordHead_Inl:
  assumes "readRecordHead r = (Inl e, y)"
  shows "length y \<le> length r \<and> (e = errEndOfStruct \<longrightarrow> length y < length r)"
proof (cases r)
  case Nil
  with assms show ?thesis by auto
next
  case (Cons b r1)
  let ?flag = "drop_bit 7 b" and ?n = "unat (drop_bit 4 b AND 0x7)"
  show ?thesis
  proof (cases "?flag = 1 \<and> ?n = 0 \<and> b AND 0x0F = TypeStruct")
    case True
    with assms Cons show ?thesis by (simp add: readRecordHead_Cons)
  next
    case False
    show ?thesis
    proof (cases "readSizeField ?flag ?n r1")
      case (Pair a r2)
      show ?thesis
      proof (cases a)
        case (Inl e')
        with Pair False assms Cons readSizeField_Inl[of ?flag ?n r1 e' r2] show ?thesis
          by (auto simp: readRecordHead_Cons)
      next
        case (Inr p)
        obtain recsize n' where p: "p = (recsize, n')" by (cases p) auto
        from readSizeField_Inr[of ?flag ?n r1 recsize n' r2] Pair Inr p
        have l2': "length r2 \<le> length r1" by simp
        from Pair Inr p False assms Cons have "readValue n' r2 = (Inl e, y)"
          by (auto simp: readRecordHead_Cons split: prod.splits sum.splits)
        from readValue_Inl[OF this] l2' Cons show ?thesis by auto
      qed
    qed
  qed
qed



lemma ReadRecord_shrinks_partial:
  "ReadRecord_readStructItems_dom (Inl (fdiv, r)) \<Longrightarrow>
     (\<forall>res y. ReadRecord fdiv r = (res, y) \<longrightarrow>
        length y \<le> length r \<and>
        (res = Inl errEndOfStruct \<or> (\<exists>b. res = Inr b) \<longrightarrow> length y < length r))"
  "ReadRecord_readStructItems_dom (Inr (fdiv, recsize, ty, items, r)) \<Longrightarrow>
     (\<forall>res y. readStructItems fdiv recsize ty items r = (res, y) \<longrightarrow> length y \<le> length r)"
proof (induction fdiv r and fdiv recsize ty items r rule: ReadRecord_readStructItems.pinduct)
  case (1 fdiv r)
  note dom = 1(1) and IH = 1(2)
  show ?case
  proof (intro allI impI)
    fix res y
    assume rr: "ReadRecord fdiv r = (res, y)"
    obtain h r' where hd: "readRecordHead r = (h, r')" by (cases "readRecordHead r")
    show "length y \<le> length r \<and>
        (res = Inl errEndOfStruct \<or> (\<exists>b. res = Inr b) \<longrightarrow> length y < length r)"
    proof (cases h)
      case (Inl e)
      with hd rr have "res = Inl e" "y = r'"
        by (simp_all add: ReadRecord.psimps[OF dom])
      with readRecordHead_Inl[of r e r'] hd Inl show ?thesis by auto
    next
      case (Inr tup)
      obtain recsize t n buf where tup: "tup = (recsize, t, n, buf)"
        by (cases tup) auto
      from hd Inr tup have hd': "readRecordHead r = (Inr (recsize, t, n, buf), r')" by simp
      from readRecordHead_Inr[OF hd'] have len: "length r' < length r" by linarith
      show ?thesis
      proof (cases "t = TypeStruct")
        case True
        then have ne: "\<not> (t = TypeAVP \<or> t = TypeString)" "t \<noteq> TypeInt" "t \<noteq> TypeDouble"
          by (simp_all add: TypeStruct_def TypeAVP_def TypeString_def TypeInt_def TypeDouble_def)
        from rr hd' True ne have "readStructItems fdiv recsize t [] r' = (res, y)"
          by (simp add: ReadRecord.psimps[OF dom])
        moreover from IH[OF hd'[symmetric] refl refl refl refl ne True]
        have "\<forall>res y. readStructItems fdiv recsize t [] r' = (res, y) \<longrightarrow> length y \<le> length r'" .
        ultimately have "length y \<le> length r'" by blast
        with len show ?thesis by simp
      next
        case False
        with rr hd' have "y = r'"
          by (auto simp: ReadRecord.psimps[OF dom] split: if_splits)
        with len show ?thesis by simp
      qed
    qed
  qed
next
  case (2 fdiv recsize ty items r)
  note dom = 2(1) and IH1 = 2(2) and IH2 = 2(3) and IH3 = 2(4)
  show ?case
  proof (intro allI impI)
    fix res y
    assume rs: "readStructItems fdiv recsize ty items r = (res, y)"
    obtain x r1 where r1: "ReadRecord fdiv r = (x, r1)" by (cases "ReadRecord fdiv r")
    from IH1 r1 have l1: "length r1 \<le> length r"
      and l1': "(\<exists>b. x = Inr b) \<longrightarrow> length r1 < length r" by blast+
    show "length y \<le> length r"
    proof (cases x)
      case (Inl e)
      with rs r1 have "y = r1"
        by (auto simp: readStructItems.psimps[OF dom] split: if_splits)
      with l1 show ?thesis by simp
    next
      case (Inr avpName)
      show ?thesis
      proof (cases "rec_Type avpName \<noteq> TypeAVP")
        case True
        with rs r1 Inr have "y = r1"
          by (simp add: readStructItems.psimps[OF dom])
        with l1 show ?thesis by simp
      next
        case False
        obtain x2 r2 where r2: "ReadRecord fdiv r1 = (x2, r2)" by (cases "ReadRecord fdiv r1")
        from IH2[OF r1[symmetric] Inr False] r2 have l2: "length r2 \<le> length r1" by blast
        show ?thesis
        proof (cases x2)
          case (Inl e)
          with rs r1 Inr False r2 have "y = r2"
            by (simp add: readStructItems.psimps[OF dom])
          with l1 l2 show ?thesis by simp
        next
          case (Inr avpValue)
          note v = this
          show ?thesis
          proof (cases "rec_Value avpName")
            case (VString key)
            with rs r1 \<open>x = Inr avpName\<close> False r2 v
            have "readStructItems fdiv (recsize + rec_size avpName + rec_size avpValue) ty
                    (items @ [StructItem key avpValue]) r2 = (res, y)"
              by (simp add: readStructItems.psimps[OF dom])
            with IH3[OF r1[symmetric] \<open>x = Inr avpName\<close> False r2[symmetric] v VString]
            have "length y \<le> length r2" by blast
            with l1 l2 show ?thesis by simp
          qed (use rs r1 \<open>x = Inr avpName\<close> False r2 v l1 l2 in
                \<open>simp_all add: readStructItems.psimps[OF dom]\<close>)
        qed
      qed
    qed
  qed
qed

termination ReadRecord
proof (relation "measure (\<lambda>x. case x of Inl (f, r) \<Rightarrow> 2 * length r
                                       | Inr (f, s, t, i, r) \<Rightarrow> 2 * length r + 1)",
    goal_cases)
  case 1
  show ?case by simp
next
  case (2 fdiv r x y b xa ya xb yb xc yaa)
  from 2(1,2,3,4,5) have "readRecordHead r = (Inr (xa, xb, xc, yaa), y)" by simp
  from readRecordHead_Inr[OF this] show ?case by simp
next
  case (3 fdiv recsize ty items r)
  show ?case by simp
next
  case (4 fdiv recsize ty items r x y b)
  from ReadRecord_shrinks_partial(1)[OF 4(4)] 4(1,2) have "length y < length r" by metis
  then show ?case by simp
next
  case (5 fdiv recsize ty items r x y b xa ya ba x3)
  from ReadRecord_shrinks_partial(1)[OF 5(8)] 5(1,2) have "length y < length r" by metis
  moreover from ReadRecord_shrinks_partial(1)[OF 5(7)] 5(4,5) have "length ya < length y" by metis
  ultimately show ?case by simp
qed


declare ReadRecord.simps [simp del] readStructItems.simps [simp del]

text \<open>
  Byte accounting: a record never counts more bytes in \<^verbatim>\<open>record.size\<close> than
  \<^verbatim>\<open>ReadRecord\<close> took from the reader, and it counts at least one.
\<close>

lemma ReadRecord_consumes_aux:
  "\<forall>res y. ReadRecord fdiv r = (res, y) \<longrightarrow>
     length y \<le> length r \<and> (res = Inl errEndOfStruct \<longrightarrow> length y < length r) \<and>
     (\<forall>rec. res = Inr rec \<longrightarrow>
        1 \<le> rec_size rec \<and> rec_size rec + int (length y) \<le> int (length r))"
  "\<forall>res y. readStructItems fdiv recsize ty items r = (res, y) \<longrightarrow>
     length y \<le> length r \<and>
     (\<forall>rec. res = Inr rec \<longrightarrow>
        recsize + 1 \<le> rec_size rec \<and> rec_size rec + int (length y) \<le> recsize + int (length r))"
proof (induction fdiv r and fdiv recsize ty items r rule: ReadRecord_readStructItems.induct)
  case (1 fdiv r)
  note IH = 1
  show ?case
  proof (intro allI impI)
    fix res y
    assume rr: "ReadRecord fdiv r = (res, y)"
    obtain h r' where hd: "readRecordHead r = (h, r')" by (cases "readRecordHead r")
    show "length y \<le> length r \<and> (res = Inl errEndOfStruct \<longrightarrow> length y < length r) \<and>
      (\<forall>rec. res = Inr rec \<longrightarrow>
         1 \<le> rec_size rec \<and> rec_size rec + int (length y) \<le> int (length r))"
    proof (cases h)
      case (Inl e)
      with hd rr have "res = Inl e" "y = r'"
        by (simp_all add: ReadRecord.simps)
      with readRecordHead_Inl[of r e r'] hd Inl show ?thesis by auto
    next
      case (Inr tup)
      obtain recsize t n vbuf where tup: "tup = (recsize, t, n, vbuf)"
        by (cases tup) auto
      from hd Inr tup have hd': "readRecordHead r = (Inr (recsize, t, n, vbuf), r')" by simp
      from readRecordHead_Inr[OF hd']
      have acc: "recsize + int (length r') = int (length r)" "1 \<le> recsize" by simp_all
      show ?thesis
      proof (cases "t = TypeStruct")
        case True
        then have ne: "\<not> (t = TypeAVP \<or> t = TypeString)" "t \<noteq> TypeInt" "t \<noteq> TypeDouble"
          by (simp_all add: Type_defs)
        from rr hd' True ne have "readStructItems fdiv recsize t [] r' = (res, y)"
          by (simp add: ReadRecord.simps)
        with IH[OF hd'[symmetric] refl refl refl refl ne True]
        have "length y \<le> length r'"
          and "\<forall>rec. res = Inr rec \<longrightarrow>
                 recsize + 1 \<le> rec_size rec \<and>
                 rec_size rec + int (length y) \<le> recsize + int (length r')"
          by blast+
        with acc show ?thesis by (cases res) auto
      next
        case False
        with rr hd' have "y = r'" and "res \<noteq> Inl errEndOfStruct"
          and "\<forall>rec. res = Inr rec \<longrightarrow> rec_size rec = recsize"
          by (auto simp: ReadRecord.simps split: if_splits)
        with acc show ?thesis by auto
      qed
    qed
  qed
next
  case (2 fdiv recsize ty items r)
  note IH1 = 2(1) and IH2 = 2(2) and IH3 = 2(3)
  show ?case
  proof (intro allI impI)
    fix res y
    assume rs: "readStructItems fdiv recsize ty items r = (res, y)"
    obtain x r1 where r1: "ReadRecord fdiv r = (x, r1)" by (cases "ReadRecord fdiv r")
    from IH1 r1 have l1: "length r1 \<le> length r"
      and l1e: "x = Inl errEndOfStruct \<longrightarrow> length r1 < length r"
      and l1r: "\<forall>rec. x = Inr rec \<longrightarrow>
                  1 \<le> rec_size rec \<and> rec_size rec + int (length r1) \<le> int (length r)"
      by blast+
    show "length y \<le> length r \<and>
      (\<forall>rec. res = Inr rec \<longrightarrow>
         recsize + 1 \<le> rec_size rec \<and>
         rec_size rec + int (length y) \<le> recsize + int (length r))"
    proof (cases x)
      case (Inl e)
      with rs r1 have "y = r1" and "res = Inr (Record (recsize + 1) ty (VStruct items)) \<or> res = Inl e"
        and "(\<exists>rec. res = Inr rec) \<longrightarrow> e = errEndOfStruct"
        by (auto simp: readStructItems.simps split: if_splits)
      with l1 l1e Inl show ?thesis by auto
    next
      case (Inr avpName)
      note k = this
      from l1r k have sk: "1 \<le> rec_size avpName"
        "rec_size avpName + int (length r1) \<le> int (length r)" by simp_all
      show ?thesis
      proof (cases "rec_Type avpName \<noteq> TypeAVP")
        case True
        with rs r1 k have "y = r1" "res = Inl (ErrNotAVP (rec_Type avpName))"
          by (simp_all add: readStructItems.simps)
        with l1 show ?thesis by simp
      next
        case False
        obtain x2 r2 where r2: "ReadRecord fdiv r1 = (x2, r2)" by (cases "ReadRecord fdiv r1")
        from IH2[OF r1[symmetric] k False] r2 have l2: "length r2 \<le> length r1"
          and l2r: "\<forall>rec. x2 = Inr rec \<longrightarrow>
                  1 \<le> rec_size rec \<and> rec_size rec + int (length r2) \<le> int (length r1)"
          by blast+
        show ?thesis
        proof (cases x2)
          case (Inl e)
          with rs r1 k False r2 have "y = r2" "res = Inl e"
            by (simp_all add: readStructItems.simps)
          with l1 l2 show ?thesis by simp
        next
          case (Inr avpValue)
          note v = this
          from l2r v have sv: "1 \<le> rec_size avpValue"
            "rec_size avpValue + int (length r2) \<le> int (length r1)" by simp_all
          show ?thesis
          proof (cases "rec_Value avpName")
            case (VString key)
            with rs r1 k False r2 v
            have "readStructItems fdiv (recsize + rec_size avpName + rec_size avpValue) ty
                    (items @ [StructItem key avpValue]) r2 = (res, y)"
              by (simp add: readStructItems.simps)
            with IH3[OF r1[symmetric] k False r2[symmetric] v VString]
            have "length y \<le> length r2"
              and "\<forall>rec. res = Inr rec \<longrightarrow>
                 recsize + rec_size avpName + rec_size avpValue + 1 \<le> rec_size rec \<and>
                 rec_size rec + int (length y)
                   \<le> recsize + rec_size avpName + rec_size avpValue + int (length r2)"
              by blast+
            with l1 l2 sk sv show ?thesis by (cases res) auto
          qed (use rs r1 k False r2 v l1 l2 in \<open>auto simp: readStructItems.simps\<close>)
        qed
      qed
    qed
  qed
qed

lemma ReadRecord_Inr_consumes:
  assumes "ReadRecord fdiv r = (Inr rec, y)"
  shows "1 \<le> rec_size rec" and "rec_size rec + int (length y) \<le> int (length r)"
    and "length y < length r"
proof -
  from ReadRecord_consumes_aux(1)[of fdiv r] assms
  show a: "1 \<le> rec_size rec" and b: "rec_size rec + int (length y) \<le> int (length r)"
    by blast+
  from a b show "length y < length r" by linarith
qed

subsection \<open>ReadPacket\<close>

text \<open>
  The loop \<^verbatim>\<open>for read < header.PayloadLength\<close> of \<^verbatim>\<open>ReadPacket\<close> over
  \<^verbatim>\<open>payload := bytes.NewReader(payloadBytes)\<close>.
\<close>

function readRecords ::
  "(int64 \<Rightarrow> 'f) \<Rightarrow> int \<Rightarrow> int \<Rightarrow> byte list \<Rightarrow> 'f Record list \<Rightarrow> error + 'f Record list" where
  "readRecords fdiv read payloadLength payload records =
     (if read < payloadLength then
        (case ReadRecord fdiv payload of
           (Inl e, payload') \<Rightarrow> Inl e
         | (Inr record, payload') \<Rightarrow>
             readRecords fdiv (read + rec_size record) payloadLength payload'
               (records @ [record]))
      else Inr records)"
  by pat_completeness auto
termination
proof (relation "measure (\<lambda>(fdiv, read, payloadLength, payload, records). length payload)",
    goal_cases)
  case 1
  show ?case by simp
next
  case (2 fdiv read payloadLength payload records x y rcd)
  from ReadRecord_Inr_consumes(3)[of fdiv payload rcd y] 2 show ?case by simp
qed

declare readRecords.simps [simp del]

text \<open>
  \<open>ReadPacket fdiv r expectedCookie\<close> on the stream \<open>r\<close>: the records or the error, and the
  state in which the function leaves its \<^verbatim>\<open>bufio.Reader\<close> (what it holds unread, and
  what is left in the stream under it).
\<close>

definition ReadPacket ::
  "(int64 \<Rightarrow> 'f) \<Rightarrow> byte list \<Rightarrow> uint32 \<Rightarrow> (error + 'f Record list) \<times> bufio" where
  "ReadPacket fdiv r expectedCookie =
     (let bufreader = bufio_NewReader r in
      case ReadHeader bufio_Read bufreader of
        (Inl e, b1) \<Rightarrow> (Inl e, b1)
      | (Inr header, b1) \<Rightarrow>
          if expectedCookie \<noteq> 0 \<and> expectedCookie \<noteq> Cookie header
          then (Inl ErrCookieMismatch, b1)
          else
            (case io_ReadFull (nat (PayloadLength header)) b1 of
               (Inl e, b2) \<Rightarrow> (Inl (ErrIO e), b2)
             | (Inr payloadBytes, b2) \<Rightarrow>
                 (case readRecords fdiv 0 (PayloadLength header) payloadBytes [] of
                    Inl e \<Rightarrow> (Inl e, b2)
                  | Inr records \<Rightarrow> (Inr records, b2))))"

section \<open>Notions of the specification\<close>

text \<open>
  The specification's \<open>minimalSize\<close>, in its own words: the smallest count from
  \<open>{1,2,3,4}\<close>, extended to 8, of bytes sufficient to hold \<open>n\<close> in two's-complement form
  without truncation. \<open>fitsTwosComplement k n\<close>: the signed value of \<open>n\<close> lies in the range
  of \<open>k\<close> bytes.
\<close>

definition fitsTwosComplement :: "nat \<Rightarrow> int64 \<Rightarrow> bool" where
  "fitsTwosComplement k n =
     (0 < k \<and> - (2 ^ (8 * k - 1)) \<le> sint n \<and> sint n < 2 ^ (8 * k - 1))"

definition minimalSize :: "int64 \<Rightarrow> nat" where
  "minimalSize n =
     (if fitsTwosComplement 1 n then 1
      else if fitsTwosComplement 2 n then 2
      else if fitsTwosComplement 3 n then 3
      else if fitsTwosComplement 4 n then 4
      else 8)"

text \<open>
  The specification's wire order of a struct: \<open>wirePairs fdiv items r = Some r'\<close> says that
  the pairs \<open>items\<close> stand in the reader \<open>r\<close> one after the other, in this order, each as a
  key record with the attribute-name tag followed by its value record, and that \<open>r'\<close> is
  what follows the last of them.
\<close>

fun wirePairs :: "(int64 \<Rightarrow> 'f) \<Rightarrow> 'f StructItem list \<Rightarrow> byte list \<Rightarrow> byte list option" where
  "wirePairs fdiv [] r = Some r"
| "wirePairs fdiv (item # items) r =
     (case ReadRecord fdiv r of
        (Inl e, r1) \<Rightarrow> None
      | (Inr k, r1) \<Rightarrow>
          if rec_Type k = TypeAVP \<and> rec_Value k = VString (Key item) then
            (case ReadRecord fdiv r1 of
               (Inl e, r2) \<Rightarrow> None
             | (Inr v, r2) \<Rightarrow> if v = item_Value item then wirePairs fdiv items r2 else None)
          else None)"

text \<open>
  Inputs for the nesting depth: \<open>nestedStruct d\<close> is the wire form of an empty struct
  wrapped \<open>d\<close> times in a struct with one pair, whose key is the empty attribute name
  (\<^verbatim>\<open>03\<close> opens a struct, \<^verbatim>\<open>05\<close> is an empty attribute name, \<^verbatim>\<open>83\<close> is the
  end-of-struct mark), and \<open>nestedRecord d\<close> is the record it stands for.
\<close>

fun nestedStruct :: "nat \<Rightarrow> byte list" where
  "nestedStruct 0 = [0x03, 0x83]"
| "nestedStruct (Suc d) = [0x03, 0x05] @ nestedStruct d @ [0x83]"

fun nestedRecord :: "nat \<Rightarrow> 'f Record" where
  "nestedRecord 0 = Record 2 TypeStruct (VStruct [])"
| "nestedRecord (Suc d) =
     Record (rec_size (nestedRecord d) + 3) TypeStruct (VStruct [StructItem [] (nestedRecord d)])"

section \<open>Properties of the sizing functions\<close>

lemma minSizeLoop_le: "minSizeLoop s n \<le> s"
proof (induction s arbitrary: n)
  case 0
  show ?case by simp
next
  case (Suc s)
  from Suc[of "push_bit 8 n"] show ?case by (simp add: le_Suc_eq)
qed

lemma getMinBinarySizeOfInt_le_4: "getMinBinarySizeOfInt v \<le> 4"
  unfolding getMinBinarySizeOfInt_def by (rule minSizeLoop_le)

lemma length_fillBE [simp]: "length (fillBE s n bytes) = length bytes"
  by (induction s arbitrary: n bytes) auto

lemma length_intToBytesBE: "length (intToBytesBE n) = getMinBinarySizeOfInt n"
  by (simp add: intToBytesBE_def Let_def)

lemma ucast_take_bit_32: "(ucast (take_bit 32 v :: int64) :: uint32) = ucast v"
  by (rule bit_word_eqI) (auto simp: bit_simps)

lemma top_byte_mask: "(push_bit 24 0xff :: uint32) = NOT (mask 24)"
  by (simp add: mask_eq_exp_minus_1 not_eq_complement)

lemma and_not_mask_eq_0_iff:
  "(x AND NOT (mask n) = 0) = (take_bit n x = x)" for x :: "'a::len word"
  by (auto simp add: bit_eq_iff bit_simps)

lemma top_byte_zero_iff: "(x AND push_bit 24 0xff = 0) = (unat x < 2 ^ 24)" for x :: uint32
proof -
  have "(x AND push_bit 24 0xff = 0) = (take_bit 24 x = x)"
    unfolding top_byte_mask by (rule and_not_mask_eq_0_iff)
  also have "\<dots> = (unat (take_bit 24 x) = unat x)"
    by (simp add: word_unat_eq_iff)
  also have "\<dots> = (unat x < 2 ^ 24)"
    by (simp add: unsigned_take_bit_eq take_bit_nat_eq_self_iff)
  finally show ?thesis .
qed

lemma unat_shift_left_8:
  fixes x :: uint32
  assumes "unat x < 2 ^ 24"
  shows "unat (push_bit 8 x) = 256 * unat x"
proof -
  from assms have "unat x * unat (256 :: uint32) < 2 ^ LENGTH(32)" by simp
  then have "unat (x * 256) = unat x * unat (256 :: uint32)"
    by (simp only: unat_mult_lem)
  then show ?thesis by (simp add: push_bit_eq_mult)
qed

text \<open>
  The loop invariant of \<open>minSizeLoop\<close>: with \<open>s\<close> rounds to go the register holds the
  32-bit argument \<open>u\<close> shifted left by \<open>4 - s\<close> bytes, and \<open>u\<close> has at most \<open>s\<close> bytes.
\<close>

lemma minSizeLoop_least:
  "s \<le> 4 \<Longrightarrow> unat x = u * 256 ^ (4 - s) \<Longrightarrow> u < 256 ^ s \<Longrightarrow>
     u < 256 ^ minSizeLoop s x \<and> (\<forall>k < minSizeLoop s x. 256 ^ k \<le> u)"
proof (induction s arbitrary: x)
  case 0
  then show ?case by simp
next
  case (Suc s)
  have pw: "(256::nat) ^ (4 - s) = 256 * 256 ^ (4 - Suc s)"
    using Suc.prems(1) by (simp flip: power_Suc add: Suc_diff_Suc)
  have e3: "(2::nat) ^ 24 = 256 ^ (3 - s) * 256 ^ s"
    using Suc.prems(1) by (simp flip: power_add)
  have e4: "(4 - Suc s) = 3 - s" by simp
  have iff: "(unat x < 2 ^ 24) = (u < 256 ^ s)"
    unfolding Suc.prems(2) e3 e4 by (simp add: mult.commute)
  show ?case
  proof (cases "x AND push_bit 24 0xff = 0")
    case True
    with top_byte_zero_iff[of x] have lt: "unat x < 2 ^ 24" by blast
    with iff have us: "u < 256 ^ s" by blast
    from unat_shift_left_8[OF lt] Suc.prems(2) pw
    have "unat (push_bit 8 x) = u * 256 ^ (4 - s)" by simp
    from Suc.IH[OF _ this us] Suc.prems(1) True show ?thesis by simp
  next
    case False
    with top_byte_zero_iff[of x] iff have "\<not> u < 256 ^ s" by blast
    then have ge: "256 ^ s \<le> u" by simp
    have "256 ^ k \<le> u" if "k < Suc s" for k
    proof -
      from that have "k \<le> s" by simp
      then have "(256::nat) ^ k \<le> 256 ^ s" by (intro power_increasing) simp_all
      with ge show ?thesis by linarith
    qed
    with False Suc.prems(3) show ?thesis by simp
  qed
qed

lemma getMinBinarySizeOfInt_least:
  "unat (ucast n :: uint32) < 256 ^ getMinBinarySizeOfInt n \<and>
   (\<forall>k < getMinBinarySizeOfInt n. 256 ^ k \<le> unat (ucast n :: uint32))"
proof -
  have "unat (ucast n :: uint32) < 256 ^ 4"
    using unsigned_less[of "ucast n :: uint32", where 'a=nat] by simp
  from minSizeLoop_least[of 4 "ucast n" "unat (ucast n :: uint32)", OF _ _ this]
  show ?thesis by (simp add: getMinBinarySizeOfInt_def)
qed

section \<open>Properties of the big-endian byte strings\<close>

text \<open>
  \<open>be_size\<close> reads a byte string as an unsigned big-endian number, \<open>be_int\<close> is the same
  number in 64 bits; \<^verbatim>\<open>intToBytesBE\<close> writes the low bytes of its argument, as many as
  \<^verbatim>\<open>getMinBinarySizeOfInt\<close> says.
\<close>

lemma pow256: "(256::nat) ^ s = 2 ^ (8 * s)"
  by (simp add: power_mult)

lemma be_size_snoc: "be_size (bs @ [b]) = be_size bs * 256 + unat b"
  by (simp add: be_size_def push_bit_eq_mult)

lemma be_size_Nil [simp]: "be_size [] = 0"
  by (simp add: be_size_def)

lemma be_size_less: "be_size bs < 256 ^ length bs"
proof (induction bs rule: rev_induct)
  case Nil
  show ?case by simp
next
  case (snoc b bs)
  have "unat b < 256" using unsigned_less[of b, where 'a=nat] by simp
  with snoc show ?case by (simp add: be_size_snoc)
qed

lemma be_int_of_nat: "be_int bs = of_nat (be_size bs)"
proof (induction bs rule: rev_induct)
  case Nil
  show ?case by (simp add: be_int_def)
next
  case (snoc b bs)
  have "be_int (bs @ [b]) = push_bit 8 (be_int bs) + ucast b"
    by (simp add: be_int_def)
  with snoc show ?case
    by (simp add: be_size_snoc push_bit_eq_mult)
qed

lemma take_bit_signed_drop_bit_8:
  "s \<le> 7 \<Longrightarrow> take_bit (8 * s) (signed_drop_bit 8 n) = take_bit (8 * s) (drop_bit 8 n)"
  for n :: int64
  by (rule bit_word_eqI) (auto simp: bit_simps bit_signed_drop_bit_iff)

lemma unat_take_bit_mod: "unat (take_bit k w) = unat w mod 2 ^ k" for w :: int64
  unfolding unsigned_take_bit_eq by (simp add: take_bit_eq_mod)

lemma unat_drop_bit_8: "unat (drop_bit 8 w) = unat w div 256" for w :: int64
  unfolding unat_drop_bit_eq by (simp add: drop_bit_eq_div)

lemma unat_signed_drop_bit_8_mod:
  fixes n :: int64
  assumes "s \<le> 7"
  shows "unat (signed_drop_bit 8 n) mod 256 ^ s = (unat n div 256) mod 256 ^ s"
proof -
  have "unat (take_bit (8 * s) (signed_drop_bit 8 n)) = unat (take_bit (8 * s) (drop_bit 8 n))"
    unfolding take_bit_signed_drop_bit_8[OF assms] ..
  then show ?thesis
    unfolding unat_take_bit_mod unat_drop_bit_8 pow256 .
qed

lemma unat_ucast_byte: "unat (ucast n :: byte) = unat n mod 256" for n :: int64
  by (simp add: unsigned_ucast_eq take_bit_eq_mod)

lemma fillBE_append:
  "length xs = s \<Longrightarrow> \<exists>zs. length zs = s \<and> (\<forall>ys. fillBE s n (xs @ ys) = zs @ ys) \<and>
     (s \<le> 8 \<longrightarrow> be_size zs = unat n mod 256 ^ s)"
proof (induction s arbitrary: n xs)
  case 0
  then show ?case by simp
next
  case (Suc s)
  from Suc.prems obtain xs' x where xs: "xs = xs' @ [x]" and len: "length xs' = s"
    by (metis length_Suc_conv_rev)
  from Suc.IH[OF len, of "signed_drop_bit 8 n"] obtain zs where
    zs: "length zs = s" "\<forall>ys. fillBE s (signed_drop_bit 8 n) (xs' @ ys) = zs @ ys"
    "s \<le> 8 \<longrightarrow> be_size zs = unat (signed_drop_bit 8 n) mod 256 ^ s"
    by blast
  have upd: "(xs @ ys)[s := ucast n] = xs' @ (ucast n # ys)" for ys
    using xs len by (simp add: list_update_append)
  have a: "fillBE (Suc s) n (xs @ ys) = (zs @ [ucast n]) @ ys" for ys
    using zs(2) by (simp add: upd)
  have b: "be_size (zs @ [ucast n]) = unat n mod 256 ^ Suc s" if "Suc s \<le> 8"
  proof -
    from that have s7: "s \<le> 7" by simp
    from zs(3) s7 have "be_size zs = (unat n div 256) mod 256 ^ s"
      by (simp add: unat_signed_drop_bit_8_mod)
    then have "be_size (zs @ [ucast n]) = ((unat n div 256) mod 256 ^ s) * 256 + unat n mod 256"
      by (simp add: be_size_snoc unat_ucast_byte)
    also have "\<dots> = unat n mod (256 * 256 ^ s)"
      by (simp add: mod_mult2_eq)
    finally show ?thesis by simp
  qed
  from a b zs(1) show ?case
    by (intro exI[of _ "zs @ [ucast n]"]) auto
qed

lemma intToBytesBE_value:
  "be_size (intToBytesBE n) = unat n mod 256 ^ getMinBinarySizeOfInt n"
proof -
  let ?s = "getMinBinarySizeOfInt n"
  from fillBE_append[of "replicate ?s 0" ?s n] obtain zs where
    zs: "length zs = ?s" "\<forall>ys. fillBE ?s n (replicate ?s 0 @ ys) = zs @ ys"
    "?s \<le> 8 \<longrightarrow> be_size zs = unat n mod 256 ^ ?s"
    by auto
  from zs(2) have "intToBytesBE n = zs"
    by (metis append_Nil2 intToBytesBE_def)
  moreover have "?s \<le> 8" using getMinBinarySizeOfInt_le_4[of n] by simp
  ultimately show ?thesis using zs(3) by simp
qed

lemma unat_ucast_32: "unat n < 2 ^ 32 \<Longrightarrow> unat (ucast n :: uint32) = unat n" for n :: int64
  by (simp add: unsigned_ucast_eq take_bit_nat_eq_self)

lemma intToBytesBE_roundtrip:
  fixes n :: int64
  assumes "unat n < 2 ^ 32"
  shows "be_size (intToBytesBE n) = unat n" and "be_int (intToBytesBE n) = n"
proof -
  from getMinBinarySizeOfInt_least[of n] unat_ucast_32[OF assms]
  have "unat n < 256 ^ getMinBinarySizeOfInt n" by simp
  then show a: "be_size (intToBytesBE n) = unat n"
    by (simp add: intToBytesBE_value)
  show "be_int (intToBytesBE n) = n"
    by (simp add: be_int_of_nat a)
qed

section \<open>Properties of ReadRecord\<close>

lemma sint_of_nat_small: "m < 2 ^ 63 \<Longrightarrow> sint (of_nat m :: int64) = int m"
  by (simp add: signed_of_nat signed_take_bit_int_eq_self)

lemma readRecordHead_Inr_size:
  assumes "readRecordHead r = (Inr (recsize, t, n, buf), y)"
  shows "1 + int (length buf) \<le> recsize"
proof (cases r)
  case Nil
  with assms show ?thesis by simp
next
  case (Cons b r1)
  let ?flag = "drop_bit 7 b" and ?n = "unat (drop_bit 4 b AND 0x7)"
  from assms Cons obtain r2 where
    sf: "readSizeField ?flag ?n r1 = (Inr (recsize, n), r2)" and rv: "readValue n r2 = (Inr buf, y)"
    by (auto simp: readRecordHead_Cons split: prod.splits sum.splits if_splits)
  from readSizeField_Inr[OF sf] readValue_Inr[OF rv] show ?thesis by auto
qed

lemma readStructItems_shape:
  "True"
  "\<forall>rec y. readStructItems fdiv recsize ty items r = (Inr rec, y) \<longrightarrow>
     rec_Type rec = ty \<and> (\<exists>its. rec_Value rec = VStruct its)"
proof (induction fdiv r and fdiv recsize ty items r rule: ReadRecord_readStructItems.induct)
  case (1 fdiv r)
  show ?case by simp
next
  case (2 fdiv recsize ty items r)
  note IH3 = 2(3)
  show ?case
  proof (intro allI impI)
    fix rec y
    assume rs: "readStructItems fdiv recsize ty items r = (Inr rec, y)"
    obtain x r1 where r1: "ReadRecord fdiv r = (x, r1)" by (cases "ReadRecord fdiv r")
    show "rec_Type rec = ty \<and> (\<exists>its. rec_Value rec = VStruct its)"
    proof (cases x)
      case (Inl e)
      with rs r1 show ?thesis
        by (auto simp: readStructItems.simps split: if_splits)
    next
      case (Inr avpName)
      note k = this
      show ?thesis
      proof (cases "rec_Type avpName \<noteq> TypeAVP")
        case True
        with rs r1 k show ?thesis by (simp add: readStructItems.simps)
      next
        case False
        obtain x2 r2 where r2: "ReadRecord fdiv r1 = (x2, r2)" by (cases "ReadRecord fdiv r1")
        show ?thesis
        proof (cases x2)
          case (Inl e)
          with rs r1 k False r2 show ?thesis by (simp add: readStructItems.simps)
        next
          case (Inr avpValue)
          note v = this
          show ?thesis
          proof (cases "rec_Value avpName")
            case (VString key)
            with rs r1 k False r2 v
            have "readStructItems fdiv (recsize + rec_size avpName + rec_size avpValue) ty
                    (items @ [StructItem key avpValue]) r2 = (Inr rec, y)"
              by (simp add: readStructItems.simps)
            with IH3[OF r1[symmetric] k False r2[symmetric] v VString]
            show ?thesis by blast
          qed (use rs r1 k False r2 v in \<open>auto simp: readStructItems.simps\<close>)
        qed
      qed
    qed
  qed
qed

text \<open>What a successful \<open>ReadRecord\<close> returns, by the type nibble of the header byte.\<close>

lemma ReadRecord_Inr_cases:
  assumes "ReadRecord fdiv r = (Inr rec, y)"
  shows "(\<exists>len buf. readRecordHead r = (Inr (rec_size rec, rec_Type rec, len, buf), y) \<and>
            ((rec_Type rec = TypeAVP \<or> rec_Type rec = TypeString) \<and>
               rec_Value rec = VString (if len = 0 then [] else butlast buf)
             \<or> rec_Type rec = TypeInt \<and> rec_Value rec = VInt (if len = 0 then 0 else be_int buf)
             \<or> rec_Type rec = TypeDouble \<and> rec_Value rec = VDouble (fdiv (be_int buf))))
         \<or> rec_Type rec = TypeStruct \<and> (\<exists>its. rec_Value rec = VStruct its)"
proof -
  obtain h r' where hd: "readRecordHead r = (h, r')" by (cases "readRecordHead r")
  show ?thesis
  proof (cases h)
    case (Inl e)
    with hd assms show ?thesis by (simp add: ReadRecord.simps)
  next
    case (Inr tup)
    obtain recsize t n vbuf where tup: "tup = (recsize, t, n, vbuf)"
      by (cases tup) auto
    from hd Inr tup have hd': "readRecordHead r = (Inr (recsize, t, n, vbuf), r')" by simp
    show ?thesis
    proof (cases "t = TypeStruct")
      case True
      then have ne: "\<not> (t = TypeAVP \<or> t = TypeString)" "t \<noteq> TypeInt" "t \<noteq> TypeDouble"
        by (simp_all add: Type_defs)
      from assms hd' True ne have "readStructItems fdiv recsize t [] r' = (Inr rec, y)"
        by (simp add: ReadRecord.simps)
      with readStructItems_shape(2)[of fdiv recsize t "[]" r'] True show ?thesis by blast
    next
      case False
      with assms hd' show ?thesis
        by (auto simp: ReadRecord.simps split: if_splits)
    qed
  qed
qed

lemma be_int_nonneg:
  assumes "length buf \<le> 7"
  shows "0 \<le> sint (be_int buf)" and "sint (be_int buf) < 2 ^ 56"
proof -
  have "(256::nat) ^ length buf \<le> 256 ^ 7"
    using assms by (intro power_increasing) simp_all
  with be_size_less[of buf] have lt: "be_size buf < 2 ^ 56" by simp
  then have "be_size buf < 2 ^ 63" by simp
  then have s: "sint (be_int buf) = int (be_size buf)"
    by (simp only: be_int_of_nat sint_of_nat_small)
  show "0 \<le> sint (be_int buf)" by (simp add: s)
  from lt of_nat_less_iff[of "be_size buf" "2 ^ 56", where 'a=int]
  have "int (be_size buf) < 2 ^ 56" by simp
  then show "sint (be_int buf) < 2 ^ 56" by (simp only: s)
qed

subsection \<open>Reading back an encoded record\<close>

lemma header_inline_table:
  "list_all (\<lambda>s. list_all (\<lambda>ty.
      drop_bit 7 (push_bit 4 (of_nat s) OR ty :: byte) = 0
      \<and> unat (drop_bit 4 (push_bit 4 (of_nat s) OR ty :: byte) AND 0x7) = s
      \<and> (push_bit 4 (of_nat s) OR ty :: byte) AND 0x0F = ty) [0, 1, 2]) [0, 1, 2, 3, 4, 5, 6, 7]"
  by code_simp

lemma header_sized_table:
  "list_all (\<lambda>k. list_all (\<lambda>ty.
      drop_bit 7 (push_bit 7 1 OR push_bit 4 (of_nat k) OR ty :: byte) = 1
      \<and> unat (drop_bit 4 (push_bit 7 1 OR push_bit 4 (of_nat k) OR ty :: byte) AND 0x7) = k
      \<and> (push_bit 7 1 OR push_bit 4 (of_nat k) OR ty :: byte) AND 0x0F = ty) [0, 1, 2])
     [1, 2, 3, 4]"
  by code_simp

lemma header_inline:
  assumes "s < 8" and "ty = TypeInt \<or> ty = TypeString \<or> ty = TypeDouble"
  shows "drop_bit 7 (push_bit 4 (of_nat s) OR ty :: byte) = 0"
    and "unat (drop_bit 4 (push_bit 4 (of_nat s) OR ty :: byte) AND 0x7) = s"
    and "(push_bit 4 (of_nat s) OR ty :: byte) AND 0x0F = ty"
proof -
  from assms(1) have s: "s \<in> set [0, 1, 2, 3, 4, 5, 6, 7]" by auto
  from assms(2) have t: "ty \<in> set [0, 1, 2]" by (auto simp: Type_defs)
  from header_inline_table s t
  show "drop_bit 7 (push_bit 4 (of_nat s) OR ty :: byte) = 0"
    and "unat (drop_bit 4 (push_bit 4 (of_nat s) OR ty :: byte) AND 0x7) = s"
    and "(push_bit 4 (of_nat s) OR ty :: byte) AND 0x0F = ty"
    unfolding list_all_iff by blast+
qed

lemma header_sized:
  assumes "1 \<le> k" and "k \<le> 4" and "ty = TypeInt \<or> ty = TypeString \<or> ty = TypeDouble"
  shows "drop_bit 7 (push_bit 7 1 OR push_bit 4 (of_nat k) OR ty :: byte) = 1"
    and "unat (drop_bit 4 (push_bit 7 1 OR push_bit 4 (of_nat k) OR ty :: byte) AND 0x7) = k"
    and "(push_bit 7 1 OR push_bit 4 (of_nat k) OR ty :: byte) AND 0x0F = ty"
proof -
  from assms(1,2) have s: "k \<in> set [1, 2, 3, 4]" by auto
  from assms(3) have t: "ty \<in> set [0, 1, 2]" by (auto simp: Type_defs)
  from header_sized_table s t
  show "drop_bit 7 (push_bit 7 1 OR push_bit 4 (of_nat k) OR ty :: byte) = 1"
    and "unat (drop_bit 4 (push_bit 7 1 OR push_bit 4 (of_nat k) OR ty :: byte) AND 0x7) = k"
    and "(push_bit 7 1 OR push_bit 4 (of_nat k) OR ty :: byte) AND 0x0F = ty"
    unfolding list_all_iff by blast+
qed

lemma bytes_Read_append:
  "p \<noteq> [] \<Longrightarrow> length p = n \<Longrightarrow> bytes_Read n (p @ rest) = (Inr p, rest)"
  by (simp add: bytes_Read_def)

lemma readValue_append: "length val = n \<Longrightarrow> readValue n (val @ rest) = (Inr val, rest)"
  by (cases "n = 0") (auto simp: readValue_pos bytes_Read_append)

lemma unat_of_nat_64:
  assumes "L < 2 ^ 32"
  shows "unat (of_nat L :: int64) = L"
proof -
  have "(2::nat) ^ 32 \<le> 2 ^ 64" by simp
  with assms have "L < 2 ^ 64" by linarith
  then show ?thesis by (simp add: unsigned_of_nat take_bit_nat_eq_self)
qed

text \<open>
  Reading back what \<open>encodeFrame\<close> wrote: the size and the type of the header byte, and the
  value bytes, are recovered, and the reader stands right behind the frame.
\<close>

lemma readRecordHead_encodeFrame:
  assumes ty: "ty = TypeInt \<or> ty = TypeString \<or> ty = TypeDouble"
    and len: "length val < 2 ^ 32"
  shows "readRecordHead (encodeFrame ty val @ rest)
           = (Inr (int (length (encodeFrame ty val)), ty, length val, val), rest)"
proof (cases "length val < 8")
  case True
  let ?b = "push_bit 4 (of_nat (length val)) OR ty :: byte"
  from True have ef: "encodeFrame ty val = ?b # val" by (simp add: encodeFrame_def)
  note h = header_inline[OF True ty]
  have sf: "readSizeField 0 (length val) (val @ rest)
              = (Inr (int (1 + length val), length val), val @ rest)"
    by (simp add: readSizeField_noflag)
  have "readRecordHead (?b # val @ rest)
          = (Inr (int (1 + length val), ty, length val, val), rest)"
    unfolding readRecordHead_Cons h sf
    by (simp add: readValue_append)
  then show ?thesis by (simp add: ef)
next
  case False
  let ?L = "length val"
  let ?sb = "intToBytesBE (of_nat ?L)"
  let ?k = "length ?sb"
  let ?b = "push_bit 7 1 OR push_bit 4 (of_nat ?k) OR ty :: byte"
  from False have ef: "encodeFrame ty val = ?b # ?sb @ val"
    by (simp add: encodeFrame_def Let_def)
  have uL: "unat (of_nat ?L :: int64) = ?L" by (rule unat_of_nat_64[OF len])
  with len have "unat (of_nat ?L :: int64) < 2 ^ 32" by simp
  from intToBytesBE_roundtrip(1)[OF this] uL have bs: "be_size ?sb = ?L" by simp
  have k4: "?k \<le> 4" by (simp add: length_intToBytesBE getMinBinarySizeOfInt_le_4)
  have k1: "1 \<le> ?k"
  proof (rule ccontr)
    assume "\<not> 1 \<le> ?k"
    then have "?k = 0" by linarith
    then have "?sb = []" by (simp only: length_0_conv)
    with bs have "?L = 0" by simp
    with False show False by simp
  qed
  then have ne: "?sb \<noteq> []" by (metis length_0_conv not_one_le_zero)
  note h = header_sized[OF k1 k4 ty]
  have sf: "readSizeField 1 ?k (?sb @ val @ rest)
              = (Inr (int (1 + ?k) + int ?L, ?L), val @ rest)"
    unfolding readSizeField_flag
    by (simp add: bytes_Read_append[OF ne refl] bs)
  have "readRecordHead (?b # ?sb @ val @ rest)
          = (Inr (int (1 + ?k) + int ?L, ty, ?L, val), rest)"
    unfolding readRecordHead_Cons h sf
    by (simp add: ne readValue_append)
  then show ?thesis by (simp add: ef)
qed

lemma be_int_Nil [simp]: "be_int [] = 0"
  by (simp add: be_int_def)

lemma ReadRecord_encodeFrame:
  assumes "length val < 2 ^ 32"
  shows "ReadRecord fdiv (encodeFrame TypeInt val @ rest)
           = (Inr (Record (int (length (encodeFrame TypeInt val))) TypeInt (VInt (be_int val))), rest)"
    and "ReadRecord fdiv (encodeFrame TypeString val @ rest)
           = (Inr (Record (int (length (encodeFrame TypeString val))) TypeString
                 (VString (butlast val))), rest)"
    and "ReadRecord fdiv (encodeFrame TypeDouble val @ rest)
           = (Inr (Record (int (length (encodeFrame TypeDouble val))) TypeDouble
                 (VDouble (fdiv (be_int val)))), rest)"
proof -
  show "ReadRecord fdiv (encodeFrame TypeInt val @ rest)
           = (Inr (Record (int (length (encodeFrame TypeInt val))) TypeInt (VInt (be_int val))), rest)"
    unfolding ReadRecord.simps[of fdiv "encodeFrame TypeInt val @ rest"]
      readRecordHead_encodeFrame[OF disjI1[OF refl] assms]
    by (auto simp: Type_defs)
  show "ReadRecord fdiv (encodeFrame TypeString val @ rest)
           = (Inr (Record (int (length (encodeFrame TypeString val))) TypeString
                 (VString (butlast val))), rest)"
    unfolding ReadRecord.simps[of fdiv "encodeFrame TypeString val @ rest"]
      readRecordHead_encodeFrame[OF disjI2[OF disjI1[OF refl]] assms]
    by (auto simp: Type_defs)
  show "ReadRecord fdiv (encodeFrame TypeDouble val @ rest)
           = (Inr (Record (int (length (encodeFrame TypeDouble val))) TypeDouble
                 (VDouble (fdiv (be_int val)))), rest)"
    unfolding ReadRecord.simps[of fdiv "encodeFrame TypeDouble val @ rest"]
      readRecordHead_encodeFrame[OF disjI2[OF disjI2[OF refl]] assms]
    by (auto simp: Type_defs)
qed

lemma length_intToBytesBE_small: "length (intToBytesBE n) < 2 ^ 32"
proof -
  have "length (intToBytesBE n) \<le> 4"
    by (simp add: length_intToBytesBE getMinBinarySizeOfInt_le_4)
  then show ?thesis by simp
qed

lemma intToBytesBE_0: "intToBytesBE 0 = []"
proof -
  have "getMinBinarySizeOfInt 0 = 0" by code_simp
  then show ?thesis by (simp add: intToBytesBE_def)
qed

lemma Encode_Int:
  "Encode fmul (Record sz TypeInt (VInt i)) = Inr (encodeFrame TypeInt (intToBytesBE i))"
proof (cases "i = 0")
  case True
  have "encodeFrame TypeInt [] = [0x00]" by (simp add: encodeFrame_def TypeInt_def)
  with True show ?thesis by (simp add: Encode_def intToBytesBE_0)
next
  case False
  then show ?thesis by (simp add: Encode_def)
qed

section \<open>Properties of ReadPacket\<close>

text \<open>
  The first \<^verbatim>\<open>Read\<close> on a fresh \<^verbatim>\<open>bufio.Reader\<close> takes up to 4096 bytes from the
  stream; the following ones are served from that buffer.
\<close>

lemma bufio_Read_fresh:
  assumes "bufio_Read n (bufio_NewReader r) = (Inr p, b')" and "0 < n" and "n < defaultBufSize"
  shows "p = take n r"
    and "b' = \<lparr>under = drop defaultBufSize r, buffered = drop n (take defaultBufSize r)\<rparr>"
  using assms
  by (auto simp: bufio_Read_def bufio_NewReader_def bytes_Read_def min_def split: if_splits)

lemma bufio_Read_ahead:
  assumes rd: "bufio_Read n \<lparr>under = drop defaultBufSize r,
                   buffered = drop k (take defaultBufSize r)\<rparr> = (Inr p, b')"
    and kn: "k + n \<le> defaultBufSize"
  shows "p = take n (drop k r)"
    and "b' = \<lparr>under = drop defaultBufSize r, buffered = drop (k + n) (take defaultBufSize r)\<rparr>"
proof -
  let ?b = "\<lparr>under = drop defaultBufSize r, buffered = drop k (take defaultBufSize r)\<rparr>"
  have both: "p = take n (drop k r) \<and>
      b' = \<lparr>under = drop defaultBufSize r, buffered = drop (k + n) (take defaultBufSize r)\<rparr>"
  proof (cases "n = 0")
    case True
    with rd show ?thesis by (simp add: bufio_Read_def)
  next
    case False
    with kn have k: "k < defaultBufSize" by simp
    show ?thesis
    proof (cases "drop k (take defaultBufSize r) = []")
      case True
      with k have "length r \<le> k" by (simp add: min_def split: if_splits)
      with k have "drop defaultBufSize r = []" by simp
      with rd True False show ?thesis
        by (simp add: bufio_Read_def split: if_splits)
    next
      case ne: False
      have "take n (drop k (take defaultBufSize r)) = take n (drop k r)"
        using kn by (simp add: drop_take min_def)
      moreover have "drop n (drop k (take defaultBufSize r)) = drop (k + n) (take defaultBufSize r)"
        by (simp add: add.commute)
      ultimately show ?thesis using rd ne False
        by (simp add: bufio_Read_def)
    qed
  qed
  from both show "p = take n (drop k r)" by blast
  from both show
    "b' = \<lparr>under = drop defaultBufSize r, buffered = drop (k + n) (take defaultBufSize r)\<rparr>"
    by blast
qed

lemma unat_byte_less: "unat (x :: byte) < 256"
  using unsigned_less[of x, where 'a=nat] by simp

text \<open>
  Where a successful \<^verbatim>\<open>ReadHeader\<close> leaves the \<^verbatim>\<open>bufio.Reader\<close> of
  \<^verbatim>\<open>ReadPacket\<close>: the stream has lost its first 4096 bytes (all of them if it is
  shorter), of which the reader still holds those behind the header.
\<close>

lemma ReadHeader_bufio_Inr:
  assumes "ReadHeader bufio_Read (bufio_NewReader r) = (Inr h, b)"
  shows "b = \<lparr>under = drop defaultBufSize r,
              buffered = drop (2 + unat (drop_bit 2 (r ! 1 AND 0x0C) + 1) + unat ((r ! 1 AND 0x3) + 1))
                           (take defaultBufSize r)\<rparr>"
proof -
  obtain x1 b1 where r1: "bufio_Read 2 (bufio_NewReader r) = (x1, b1)"
    by (cases "bufio_Read 2 (bufio_NewReader r)")
  show ?thesis
  proof (cases x1)
    case (Inl e)
    with r1 assms show ?thesis by (simp add: ReadHeader_def)
  next
    case (Inr hbuf)
    from bufio_Read_fresh[of 2 r hbuf b1] r1 Inr
    have hbuf: "hbuf = take 2 r"
      and b1: "b1 = \<lparr>under = drop defaultBufSize r, buffered = drop 2 (take defaultBufSize r)\<rparr>"
      by (simp_all add: defaultBufSize_def)
    from r1 Inr assms have l2: "length hbuf = 2"
      by (auto simp: ReadHeader_def split: if_splits)
    with hbuf have h1: "hbuf ! 1 = r ! 1" by simp
    let ?sl = "unat (drop_bit 2 (r ! 1 AND 0x0C) + 1)"
    let ?sc = "unat ((r ! 1 AND 0x3) + 1)"
    obtain x2 b2 where r2: "bufio_Read ?sl b1 = (x2, b2)" by (cases "bufio_Read ?sl b1")
    from r1 Inr assms l2 h1 r2 obtain lbuf where x2: "x2 = Inr lbuf"
      by (cases x2) (auto simp: ReadHeader_def Let_def split: if_splits)
    have sl: "?sl < 256" and sc: "?sc < 256" by (rule unat_byte_less)+
    then have le1: "2 + ?sl \<le> defaultBufSize" and le2: "2 + ?sl + ?sc \<le> defaultBufSize"
      by (simp_all add: defaultBufSize_def)
    from bufio_Read_ahead(2)[OF r2[unfolded b1 x2] le1]
    have b2: "b2 = \<lparr>under = drop defaultBufSize r,
                     buffered = drop (2 + ?sl) (take defaultBufSize r)\<rparr>" .
    obtain x3 b3 where r3: "bufio_Read ?sc b2 = (x3, b3)" by (cases "bufio_Read ?sc b2")
    from r1 Inr assms l2 h1 r2 x2 r3 obtain cbuf where x3: "x3 = Inr cbuf"
      by (cases x3) (auto simp: ReadHeader_def Let_def split: if_splits)
    from bufio_Read_ahead(2)[OF r3[unfolded b2 x3] le2]
    have b3: "b3 = \<lparr>under = drop defaultBufSize r,
                     buffered = drop (2 + ?sl + ?sc) (take defaultBufSize r)\<rparr>" .
    from r1 Inr assms l2 h1 r2 x2 r3 x3 have "b = b3"
      by (auto simp: ReadHeader_def Let_def split: if_splits)
    with b3 show ?thesis by simp
  qed
qed

lemma foldl_length_nonneg:
  "0 \<le> a \<Longrightarrow> 0 \<le> foldl (\<lambda>l b. push_bit 8 l + uint b) a (bs :: byte list)"
  by (induction bs arbitrary: a) (simp_all add: push_bit_eq_mult)

lemma ReadHeader_Inr_PayloadLength:
  assumes "ReadHeader Read r = (Inr h, r')"
  shows "0 \<le> PayloadLength h"
  using assms
  by (auto simp: ReadHeader_def Let_def foldl_length_nonneg[OF order_refl]
      split: prod.splits sum.splits if_splits)

lemma io_ReadFull_loop_length:
  "io_ReadFull_loop need got b = (Inr p, b') \<Longrightarrow> length p = length got + need"
proof (induction need got b rule: io_ReadFull_loop.induct)
  case (1 need got b)
  show ?case
  proof (cases "need = 0")
    case True
    with 1(2) show ?thesis by simp
  next
    case False
    obtain x b1 where rd: "bufio_Read need b = (x, b1)" by (cases "bufio_Read need b")
    show ?thesis
    proof (cases x)
      case (Inl e)
      with 1(2) False rd show ?thesis by simp
    next
      case (Inr q)
      from bufio_Read_progress[of need b q b1] rd Inr False have q: "length q \<le> need" by simp
      from 1(2) False rd Inr
      have "io_ReadFull_loop (need - length q) (got @ q) b1 = (Inr p, b')" by simp
      from 1(1)[OF False rd[symmetric] Inr this] q show ?thesis by simp
    qed
  qed
qed

lemma io_ReadFull_length: "io_ReadFull n b = (Inr p, b') \<Longrightarrow> length p = n"
  using io_ReadFull_loop_length[of n "[]" b p b'] by (simp add: io_ReadFull_def)

text \<open>
  The loop of \<^verbatim>\<open>ReadPacket\<close>: \<open>read\<close> is the sum of the sizes of the records so far,
  and together with the bytes left in the payload it never exceeds the payload length.
\<close>

lemma readRecords_sum:
  "readRecords fdiv read payloadLength payload records = Inr result \<Longrightarrow>
   read + int (length payload) \<le> payloadLength \<Longrightarrow>
   sum_list (map rec_size records) = read \<Longrightarrow>
   sum_list (map rec_size result) = payloadLength"
proof (induction fdiv read payloadLength payload records rule: readRecords.induct)
  case (1 fdiv read payloadLength payload records)
  show ?case
  proof (cases "read < payloadLength")
    case False
    with 1(2) have "result = records" by (simp add: readRecords.simps)
    with False 1(3,4) show ?thesis by simp
  next
    case True
    obtain x payload' where rr: "ReadRecord fdiv payload = (x, payload')"
      by (cases "ReadRecord fdiv payload")
    show ?thesis
    proof (cases x)
      case (Inl e)
      with 1(2) True rr show ?thesis by (simp add: readRecords.simps)
    next
      case (Inr rcd)
      from ReadRecord_Inr_consumes(2)[of fdiv payload rcd payload'] rr Inr
      have "rec_size rcd + int (length payload') \<le> int (length payload)" by simp
      with 1(3) have a: "read + rec_size rcd + int (length payload') \<le> payloadLength" by simp
      from 1(4) have b: "sum_list (map rec_size (records @ [rcd])) = read + rec_size rcd" by simp
      from 1(2) True rr Inr
      have "readRecords fdiv (read + rec_size rcd) payloadLength payload' (records @ [rcd])
              = Inr result"
        by (simp add: readRecords.simps)
      from 1(1)[OF True rr[symmetric] Inr this a b] show ?thesis .
    qed
  qed
qed

section \<open>Properties of struct decoding\<close>

lemma wirePairs_Cons:
  assumes "ReadRecord fdiv r = (Inr k, r1)" and "rec_Type k = TypeAVP"
    and "rec_Value k = VString key" and "ReadRecord fdiv r1 = (Inr v, r2)"
  shows "wirePairs fdiv (StructItem key v # items) r = wirePairs fdiv items r2"
  using assms by simp

lemma wirePairs_snoc:
  assumes "wirePairs fdiv items r0 = Some r"
    and "ReadRecord fdiv r = (Inr k, r1)" and "rec_Type k = TypeAVP"
    and "rec_Value k = VString key" and "ReadRecord fdiv r1 = (Inr v, r2)"
  shows "wirePairs fdiv (items @ [StructItem key v]) r0 = Some r2"
  using assms(1)
proof (induction items arbitrary: r0)
  case Nil
  then have "r0 = r" by simp
  with wirePairs_Cons[OF assms(2-5), of "[]"] show ?case by simp
next
  case (Cons item items)
  from Cons.prems obtain a where "wirePairs fdiv items a = Some r"
    and "\<And>more. wirePairs fdiv (item # more) r0 = wirePairs fdiv more a"
    by (auto split: prod.splits sum.splits if_splits)
  with Cons.IH[of a] show ?case by simp
qed

text \<open>
  The loop of the \<^verbatim>\<open>TypeStruct\<close> case appends the pairs in the order of the wire: after
  the pairs \<open>items\<close> it stands behind them with \<open>items\<close> appended to its slice.
\<close>

lemma readStructItems_wirePairs:
  "wirePairs fdiv items r = Some r' \<Longrightarrow>
     \<exists>n. readStructItems fdiv recsize ty items0 r = readStructItems fdiv n ty (items0 @ items) r'"
proof (induction items arbitrary: r recsize items0)
  case Nil
  then show ?case by auto
next
  case (Cons item items)
  from Cons.prems obtain k r1 v r2 where
    k: "ReadRecord fdiv r = (Inr k, r1)" "rec_Type k = TypeAVP" "rec_Value k = VString (Key item)"
    and v: "ReadRecord fdiv r1 = (Inr v, r2)" "v = item_Value item"
    and rest: "wirePairs fdiv items r2 = Some r'"
    by (auto split: prod.splits sum.splits if_splits)
  from v(2) have item: "StructItem (Key item) v = item" by simp
  from k v(1) have "readStructItems fdiv recsize ty items0 r
      = readStructItems fdiv (recsize + rec_size k + rec_size v) ty
          (items0 @ [StructItem (Key item) v]) r2"
    by (simp add: readStructItems.simps[of fdiv recsize ty items0 r])
  with Cons.IH[OF rest, of "recsize + rec_size k + rec_size v" "items0 @ [item]"] item
  show ?case by simp
qed

lemma readStructItems_order:
  "True"
  "\<forall>rec y. readStructItems fdiv recsize ty items0 r = (Inr rec, y) \<longrightarrow>
     (\<exists>items r1. rec_Value rec = VStruct (items0 @ items) \<and> wirePairs fdiv items r = Some r1
        \<and> ReadRecord fdiv r1 = (Inl errEndOfStruct, y))"
proof (induction fdiv r and fdiv recsize ty items0 r rule: ReadRecord_readStructItems.induct)
  case (1 fdiv r)
  show ?case by simp
next
  case (2 fdiv recsize ty items0 r)
  note IH3 = 2(3)
  show ?case
  proof (intro allI impI)
    fix rec y
    assume rs: "readStructItems fdiv recsize ty items0 r = (Inr rec, y)"
    obtain x r1 where r1: "ReadRecord fdiv r = (x, r1)" by (cases "ReadRecord fdiv r")
    show "\<exists>items r1. rec_Value rec = VStruct (items0 @ items) \<and> wirePairs fdiv items r = Some r1
        \<and> ReadRecord fdiv r1 = (Inl errEndOfStruct, y)"
    proof (cases x)
      case (Inl e)
      with rs r1 have "e = errEndOfStruct" "y = r1" "rec_Value rec = VStruct items0"
        by (auto simp: readStructItems.simps split: if_splits)
      with r1 Inl have "rec_Value rec = VStruct (items0 @ []) \<and> wirePairs fdiv [] r = Some r
        \<and> ReadRecord fdiv r = (Inl errEndOfStruct, y)" by simp
      then show ?thesis by blast
    next
      case (Inr avpName)
      note k = this
      show ?thesis
      proof (cases "rec_Type avpName \<noteq> TypeAVP")
        case True
        with rs r1 k show ?thesis by (simp add: readStructItems.simps)
      next
        case False
        obtain x2 r2 where r2: "ReadRecord fdiv r1 = (x2, r2)" by (cases "ReadRecord fdiv r1")
        show ?thesis
        proof (cases x2)
          case (Inl e)
          with rs r1 k False r2 show ?thesis by (simp add: readStructItems.simps)
        next
          case (Inr avpValue)
          note v = this
          show ?thesis
          proof (cases "rec_Value avpName")
            case (VString key)
            with rs r1 k False r2 v
            have "readStructItems fdiv (recsize + rec_size avpName + rec_size avpValue) ty
                    (items0 @ [StructItem key avpValue]) r2 = (Inr rec, y)"
              by (simp add: readStructItems.simps)
            with IH3[OF r1[symmetric] k False r2[symmetric] v VString]
            obtain items r3 where
              a: "rec_Value rec = VStruct ((items0 @ [StructItem key avpValue]) @ items)"
              and b: "wirePairs fdiv items r2 = Some r3"
              and c: "ReadRecord fdiv r3 = (Inl errEndOfStruct, y)"
              by blast
            from False have t: "rec_Type avpName = TypeAVP" by simp
            from wirePairs_Cons[OF r1[unfolded k] t VString r2[unfolded v], of items] b
            have "wirePairs fdiv (StructItem key avpValue # items) r = Some r3" by simp
            with a c show ?thesis by (intro exI[of _ "StructItem key avpValue # items"]) auto
          qed (use rs r1 k False r2 v in \<open>auto simp: readStructItems.simps\<close>)
        qed
      qed
    qed
  qed
qed

lemma ReadRecord_struct_head:
  assumes "readRecordHead r = (Inr (recsize, TypeStruct, len, buf), r0)"
  shows "ReadRecord fdiv r = readStructItems fdiv recsize TypeStruct [] r0"
  using assms by (simp add: ReadRecord.simps[of fdiv r] Type_defs)

lemma ReadRecord_Inr_struct:
  assumes "ReadRecord fdiv r = (Inr rec, y)" and "rec_Type rec = TypeStruct"
  shows "\<exists>recsize len buf r0. readRecordHead r = (Inr (recsize, TypeStruct, len, buf), r0)
           \<and> readStructItems fdiv recsize TypeStruct [] r0 = (Inr rec, y)"
proof -
  obtain h r' where hd: "readRecordHead r = (h, r')" by (cases "readRecordHead r")
  show ?thesis
  proof (cases h)
    case (Inl e)
    with hd assms show ?thesis by (simp add: ReadRecord.simps)
  next
    case (Inr tup)
    obtain recsize t n vbuf where tup: "tup = (recsize, t, n, vbuf)"
      by (cases tup) auto
    from hd Inr tup have hd': "readRecordHead r = (Inr (recsize, t, n, vbuf), r')" by simp
    show ?thesis
    proof (cases "t = TypeStruct")
      case True
      with ReadRecord_struct_head[of r recsize n vbuf r' fdiv] hd' assms(1) show ?thesis
        by auto
    next
      case False
      with assms hd' show ?thesis
        by (auto simp: ReadRecord.simps Type_defs split: if_splits)
    qed
  qed
qed

lemma ReadRecord_AVP_string:
  assumes "ReadRecord fdiv r = (Inr k, r1)" and "rec_Type k = TypeAVP"
  shows "\<exists>key. rec_Value k = VString key"
  using ReadRecord_Inr_cases[OF assms(1)] assms(2) by (auto simp: Type_defs)

subsection \<open>Nested structs\<close>

lemma readRecordHead_struct_open:
  "readRecordHead (0x03 # r) = (Inr (1, TypeStruct, 0, []), r)"
proof -
  have "drop_bit 7 (0x03 :: byte) = 0" "unat (drop_bit 4 (0x03 :: byte) AND 0x7) = 0"
    "(0x03 :: byte) AND 0x0F = 0x03"
    by code_simp+
  then show ?thesis
    unfolding readRecordHead_Cons by (simp add: readSizeField_noflag TypeStruct_def)
qed

lemma readRecordHead_struct_end:
  "readRecordHead (0x83 # r) = (Inl errEndOfStruct, r)"
proof -
  have "drop_bit 7 (0x83 :: byte) = 1" "unat (drop_bit 4 (0x83 :: byte) AND 0x7) = 0"
    "(0x83 :: byte) AND 0x0F = 0x03"
    by code_simp+
  then show ?thesis
    unfolding readRecordHead_Cons by (simp add: TypeStruct_def)
qed

lemma readRecordHead_empty_name:
  "readRecordHead (0x05 # r) = (Inr (1, TypeAVP, 0, []), r)"
proof -
  have "drop_bit 7 (0x05 :: byte) = 0" "unat (drop_bit 4 (0x05 :: byte) AND 0x7) = 0"
    "(0x05 :: byte) AND 0x0F = 0x05"
    by code_simp+
  then show ?thesis
    unfolding readRecordHead_Cons by (simp add: readSizeField_noflag TypeAVP_def)
qed

lemma ReadRecord_struct_end: "ReadRecord fdiv (0x83 # r) = (Inl errEndOfStruct, r)"
  by (simp add: ReadRecord.simps[of fdiv "0x83 # r"] readRecordHead_struct_end)

lemma ReadRecord_empty_name:
  "ReadRecord fdiv (0x05 # r) = (Inr (Record 1 TypeAVP (VString [])), r)"
  by (simp add: ReadRecord.simps[of fdiv "0x05 # r"] readRecordHead_empty_name)

lemma ReadRecord_nestedStruct:
  "ReadRecord fdiv (nestedStruct d @ rest) = (Inr (nestedRecord d), rest)"
proof (induction d arbitrary: rest)
  case 0
  have "ReadRecord fdiv (0x03 # 0x83 # rest) = readStructItems fdiv 1 TypeStruct [] (0x83 # rest)"
    by (rule ReadRecord_struct_head[OF readRecordHead_struct_open])
  also have "\<dots> = (Inr (Record 2 TypeStruct (VStruct [])), rest)"
    by (simp add: readStructItems.simps[of fdiv 1 TypeStruct "[]" "0x83 # rest"]
        ReadRecord_struct_end)
  finally show ?case by simp
next
  case (Suc d)
  let ?inner = "nestedRecord d :: 'a Record"
  let ?r1 = "nestedStruct d @ 0x83 # rest"
  have "ReadRecord fdiv (0x03 # 0x05 # ?r1) = readStructItems fdiv 1 TypeStruct [] (0x05 # ?r1)"
    by (rule ReadRecord_struct_head[OF readRecordHead_struct_open])
  also have "\<dots> = readStructItems fdiv (1 + 1 + rec_size ?inner) TypeStruct
                      ([] @ [StructItem [] ?inner]) (0x83 # rest)"
    by (simp add: readStructItems.simps[of fdiv 1 TypeStruct "[]" "0x05 # ?r1"]
        ReadRecord_empty_name Suc.IH[of "0x83 # rest"])
  also have "\<dots> = (Inr (Record (1 + 1 + rec_size ?inner + 1) TypeStruct
                            (VStruct [StructItem [] ?inner])), rest)"
    by (simp add: readStructItems.simps[of fdiv _ TypeStruct _ "0x83 # rest"]
        ReadRecord_struct_end)
  finally show ?case by simp
qed

section \<open>Claims\<close>

text \<open>
  Claim C7. \<^verbatim>\<open>WritePacket\<close> called with an empty list of values fails with an error
  (\<^verbatim>\<open>missing values\<close>) and writes nothing: the sink holds after the call exactly what it
  held before, whatever the sink, the cookie drawn and the float conversion.
\<close>

theorem WritePacket_empty_values:
  "WritePacket fmul cookie w [] = (Inl ErrMissingValues, w)"
  by (simp add: WritePacket_def)

text \<open>
  Claim C10. \<^verbatim>\<open>getMinBinarySizeOfInt\<close> only looks at the low 32 bits of its argument and
  returns a size of at most 4 (0 included); so \<^verbatim>\<open>intToBytesBE\<close> returns at most 4 bytes,
  and \<^verbatim>\<open>WritePacket\<close> never returns its \<^verbatim>\<open>packet length too big\<close> error.
\<close>

theorem packet_length_too_big_unreachable:
  "getMinBinarySizeOfInt v = getMinBinarySizeOfInt (take_bit 32 v)
   \<and> getMinBinarySizeOfInt v \<le> 4
   \<and> length (intToBytesBE v) \<le> 4
   \<and> fst (WritePacket fmul cookie w values) \<noteq> Inl (ErrPacketLengthTooBig k)"
proof -
  have a: "getMinBinarySizeOfInt v = getMinBinarySizeOfInt (take_bit 32 v)"
    by (simp add: getMinBinarySizeOfInt_def ucast_take_bit_32)
  have b: "length (intToBytesBE x) \<le> 4" for x
    by (simp add: length_intToBytesBE getMinBinarySizeOfInt_le_4)
  have c: "fst (WritePacket fmul cookie w values) \<noteq> Inl (ErrPacketLengthTooBig k)"
  proof (cases "encodeValues fmul values []")
    case (Inl e)
    have "e \<noteq> ErrPacketLengthTooBig k" if "encodeValues fmul vs p = Inl e" for vs p
      using that
      by (induction vs arbitrary: p)
         (auto simp: CreateRecord_def Encode_def split: sum.splits Value.splits if_splits)
    with Inl show ?thesis by (auto simp: WritePacket_def)
  next
    case (Inr payload)
    with b[of "of_nat (length payload)"] show ?thesis
      by (auto simp: WritePacket_def Let_def MaxSizeOfLength_def)
  qed
  from a b c getMinBinarySizeOfInt_le_4 show ?thesis by blast
qed

text \<open>
  Claim C3, as stated: \<^verbatim>\<open>getMinBinarySizeOfInt\<close> returns the smallest count from
  \<open>{1,2,3,4}\<close> (8 for wider values) of bytes that hold \<open>n\<close> in two's-complement form; 42
  needs 1 byte and 8388605 needs 3. The two examples hold, the general statement does not:
  0 gets the size 0, 128 gets one byte although one two's-complement byte ends at 127, and
  -1 gets four bytes although one would do.
\<close>

theorem getMinBinarySizeOfInt_not_twos_complement:
  "getMinBinarySizeOfInt 0 = 0 \<and> minimalSize 0 = 1
   \<and> getMinBinarySizeOfInt 128 = 1 \<and> \<not> fitsTwosComplement 1 128 \<and> minimalSize 128 = 2
   \<and> getMinBinarySizeOfInt (- 1) = 4 \<and> fitsTwosComplement 1 (- 1) \<and> minimalSize (- 1) = 1"
proof -
  have "getMinBinarySizeOfInt 0 = 0" by code_simp
  moreover have "minimalSize 0 = 1" by code_simp
  moreover have "getMinBinarySizeOfInt 128 = 1" by code_simp
  moreover have "\<not> fitsTwosComplement 1 128" by code_simp
  moreover have "minimalSize 128 = 2" by code_simp
  moreover have "getMinBinarySizeOfInt (- 1) = 4" by code_simp
  moreover have "fitsTwosComplement 1 (- 1)" by code_simp
  moreover have "minimalSize (- 1) = 1" by code_simp
  ultimately show ?thesis by blast
qed

text \<open>
  Claim C3, amended: \<^verbatim>\<open>getMinBinarySizeOfInt\<close> returns the smallest count from
  \<open>{0,1,2,3,4}\<close> of bytes that hold the low 32 bits of \<open>n\<close> as an unsigned number (0 when
  they are all zero); 42 needs 1 byte and 8388605 needs 3.
\<close>

theorem getMinBinarySizeOfInt_unsigned_minimal:
  "getMinBinarySizeOfInt n \<le> 4
   \<and> unat (ucast n :: uint32) < 256 ^ getMinBinarySizeOfInt n
   \<and> (\<forall>k < getMinBinarySizeOfInt n. 256 ^ k \<le> unat (ucast n :: uint32))
   \<and> getMinBinarySizeOfInt 42 = 1 \<and> getMinBinarySizeOfInt 8388605 = 3"
proof -
  have "getMinBinarySizeOfInt 42 = 1" "getMinBinarySizeOfInt 8388605 = 3"
    by code_simp+
  with getMinBinarySizeOfInt_least[of n] getMinBinarySizeOfInt_le_4[of n]
  show ?thesis by blast
qed

theorem getMinBinarySizeOfInt_unsigned_minimal_witness:
  "getMinBinarySizeOfInt 8388605 = 3
   \<and> unat (ucast (8388605 :: int64) :: uint32) < 256 ^ 3
   \<and> 256 ^ 2 \<le> unat (ucast (8388605 :: int64) :: uint32)"
proof -
  have e: "getMinBinarySizeOfInt 8388605 = 3"
    using getMinBinarySizeOfInt_unsigned_minimal[of 0] by blast
  have "(2::nat) < getMinBinarySizeOfInt 8388605" by (simp add: e)
  with getMinBinarySizeOfInt_unsigned_minimal[of 8388605] e show ?thesis
    by (metis (no_types, lifting))
qed

text \<open>
  Claim C9, as stated: every integer decoded from the wire is non-negative. An \<^verbatim>\<open>Int\<close>
  record with eight payload bytes \<^verbatim>\<open>FF\<close> decodes to \<open>-1\<close>: the accumulation
  \<^verbatim>\<open>value<<8 + int(b)\<close> wraps in the 64 bits of \<^verbatim>\<open>int\<close>.
\<close>

theorem ReadRecord_int_negative:
  "ReadRecord (\<lambda>n. n) [0x90, 0x08, 0xFF, 0xFF, 0xFF, 0xFF, 0xFF, 0xFF, 0xFF, 0xFF]
     = (Inr (Record 10 TypeInt (VInt (- 1))), [])
   \<and> sint (- 1 :: int64) < 0"
proof -
  have "ReadRecord (\<lambda>n. n) [0x90, 0x08, 0xFF, 0xFF, 0xFF, 0xFF, 0xFF, 0xFF, 0xFF, 0xFF]
     = (Inr (Record 10 TypeInt (VInt (- 1 :: int64))), [])"
    by code_simp
  then show ?thesis by simp
qed

text \<open>
  Claim C9, amended: an integer record that takes at most 8 bytes on the wire (a header byte
  and at most 7 payload bytes, which covers every record with an inline size) decodes to a
  non-negative integer, below \<open>2 ^ 56\<close>.
\<close>

theorem ReadRecord_int_nonnegative:
  assumes "ReadRecord fdiv r = (Inr rec, y)" and "rec_Type rec = TypeInt" and "rec_size rec \<le> 8"
  shows "\<exists>v. rec_Value rec = VInt v \<and> 0 \<le> sint v \<and> sint v < 2 ^ 56"
proof -
  from ReadRecord_Inr_cases[OF assms(1)] assms(2) obtain len buf where
    hd: "readRecordHead r = (Inr (rec_size rec, rec_Type rec, len, buf), y)"
    and v: "rec_Value rec = VInt (if len = 0 then 0 else be_int buf)"
    by (auto simp: Type_defs)
  from readRecordHead_Inr_size[OF hd] assms(3) have "length buf \<le> 7" by simp
  from be_int_nonneg[OF this] v show ?thesis by auto
qed

theorem ReadRecord_int_nonnegative_witness:
  "ReadRecord (\<lambda>n. n) [0x10, 0x2A] = (Inr (Record 2 TypeInt (VInt 42)), [])
   \<and> (\<exists>v. VInt 42 = VInt v \<and> 0 \<le> sint v \<and> sint v < 2 ^ 56)"
proof -
  have rr: "ReadRecord (\<lambda>n. n) [0x10, 0x2A] = (Inr (Record 2 TypeInt (VInt (42 :: int64))), [])"
    by code_simp
  from ReadRecord_int_nonnegative[OF rr] have
    "\<exists>v. VInt 42 = VInt v \<and> 0 \<le> sint v \<and> sint v < 2 ^ 56" by simp
  with rr show ?thesis by blast
qed

text \<open>
  Claim C1, as stated: decoding the encoding of any int, string or double gives the value
  back. Only the low 32 bits of an integer are written and they are read back as an
  unsigned number: \<open>-1\<close> comes back as \<open>4294967295\<close> and \<open>2 ^ 32\<close> as \<open>0\<close>.
\<close>

theorem Encode_ReadRecord_negative:
  "Encode (\<lambda>x. x) (Record 0 TypeInt (VInt (- 1))) = Inr [0x40, 0xFF, 0xFF, 0xFF, 0xFF]
   \<and> ReadRecord (\<lambda>n. n) [0x40, 0xFF, 0xFF, 0xFF, 0xFF]
       = (Inr (Record 5 TypeInt (VInt 4294967295)), [])
   \<and> (4294967295 :: int64) \<noteq> - 1
   \<and> Encode (\<lambda>x. x) (Record 0 TypeInt (VInt 4294967296)) = Inr [0x00]
   \<and> ReadRecord (\<lambda>n. n) [0x00] = (Inr (Record 1 TypeInt (VInt 0)), [])
   \<and> (0 :: int64) \<noteq> 4294967296"
proof -
  have "Encode (\<lambda>x. x) (Record 0 TypeInt (VInt (- 1 :: int64)))
          = Inr [0x40, 0xFF, 0xFF, 0xFF, 0xFF]"
    by code_simp
  moreover have "ReadRecord (\<lambda>n. n) [0x40, 0xFF, 0xFF, 0xFF, 0xFF]
       = (Inr (Record 5 TypeInt (VInt (4294967295 :: int64))), [])"
    by code_simp
  moreover have "(4294967295 :: int64) \<noteq> - 1" by simp
  moreover have "Encode (\<lambda>x. x) (Record 0 TypeInt (VInt (4294967296 :: int64))) = Inr [0x00]"
    by code_simp
  moreover have "ReadRecord (\<lambda>n. n) [0x00] = (Inr (Record 1 TypeInt (VInt (0 :: int64))), [])"
    by code_simp
  moreover have "(0 :: int64) \<noteq> 4294967296" by simp
  ultimately show ?thesis by blast
qed

text \<open>
  Claim C1, amended: an integer in the range \<open>0 \<dots> 2 ^ 32 - 1\<close> and a string of fewer
  than \<open>2 ^ 32 - 1\<close> bytes are decoded from their encoding exactly, whatever follows the
  encoding in the reader and whatever \<^verbatim>\<open>size\<close> the encoded record carried; the decoded
  record's \<^verbatim>\<open>size\<close> is the length of the encoding. A double \<open>d\<close> whose scaled value
  \<^verbatim>\<open>int(d * 1000)\<close> lies in that range comes back as \<^verbatim>\<open>float64(int(d * 1000)) / 1000.0\<close>.
\<close>

theorem Encode_ReadRecord_roundtrip:
  "(unat i < 2 ^ 32 \<longrightarrow>
      (\<exists>w. Encode fmul (Record sz TypeInt (VInt i)) = Inr w
         \<and> ReadRecord fdiv (w @ rest) = (Inr (Record (int (length w)) TypeInt (VInt i)), rest)))
   \<and> (length s + 1 < 2 ^ 32 \<longrightarrow>
      (\<exists>w. Encode fmul (Record sz TypeString (VString s)) = Inr w
         \<and> ReadRecord fdiv (w @ rest)
             = (Inr (Record (int (length w)) TypeString (VString s)), rest)))
   \<and> (unat (fmul d) < 2 ^ 32 \<longrightarrow>
      (\<exists>w. Encode fmul (Record sz TypeDouble (VDouble d)) = Inr w
         \<and> ReadRecord fdiv (w @ rest)
             = (Inr (Record (int (length w)) TypeDouble (VDouble (fdiv (fmul d)))), rest)))"
proof (intro conjI impI)
  assume "unat i < 2 ^ 32"
  from intToBytesBE_roundtrip(2)[OF this]
    ReadRecord_encodeFrame(1)[OF length_intToBytesBE_small, of fdiv i rest]
  show "\<exists>w. Encode fmul (Record sz TypeInt (VInt i)) = Inr w
         \<and> ReadRecord fdiv (w @ rest) = (Inr (Record (int (length w)) TypeInt (VInt i)), rest)"
    by (simp add: Encode_Int)
next
  assume "length s + 1 < 2 ^ 32"
  then have "length (s @ [0x00 :: byte]) < 2 ^ 32" by simp
  from ReadRecord_encodeFrame(2)[OF this, of fdiv rest]
  show "\<exists>w. Encode fmul (Record sz TypeString (VString s)) = Inr w
         \<and> ReadRecord fdiv (w @ rest)
             = (Inr (Record (int (length w)) TypeString (VString s)), rest)"
    by (simp add: Encode_def Type_defs)
next
  assume "unat (fmul d) < 2 ^ 32"
  from intToBytesBE_roundtrip(2)[OF this]
    ReadRecord_encodeFrame(3)[OF length_intToBytesBE_small, of fdiv "fmul d" rest]
  show "\<exists>w. Encode fmul (Record sz TypeDouble (VDouble d)) = Inr w
         \<and> ReadRecord fdiv (w @ rest)
             = (Inr (Record (int (length w)) TypeDouble (VDouble (fdiv (fmul d)))), rest)"
    by (simp add: Encode_def Type_defs)
qed

theorem Encode_ReadRecord_roundtrip_witness:
  "(\<exists>w. Encode (\<lambda>x. x) (Record 0 TypeInt (VInt 42)) = Inr w
      \<and> ReadRecord (\<lambda>n. n) (w @ []) = (Inr (Record (int (length w)) TypeInt (VInt 42)), []))
   \<and> (\<exists>w. Encode (\<lambda>x. x) (Record 0 TypeString (VString [0x74, 0x6D])) = Inr w
      \<and> ReadRecord (\<lambda>n. n) (w @ [])
          = (Inr (Record (int (length w)) TypeString (VString [0x74, 0x6D])), []))
   \<and> (\<exists>w. Encode (\<lambda>x. x) (Record 0 TypeDouble (VDouble 1588)) = Inr w
      \<and> ReadRecord (\<lambda>n. n) (w @ [])
          = (Inr (Record (int (length w)) TypeDouble (VDouble 1588)), []))"
  using Encode_ReadRecord_roundtrip[of 42 "\<lambda>x. x" 0 "\<lambda>n. n" "[]" "[0x74, 0x6D]" 1588]
  by simp

text \<open>
  Claim C2, as stated: on a cookie mismatch \<^verbatim>\<open>ReadPacket\<close> fails and has consumed the
  declared payload off the stream. On a packet with the cookie 7 and a payload of 2 bytes,
  followed by the first byte of the next packet, \<^verbatim>\<open>ReadPacket\<close> called with the cookie 9
  returns right after the header: its buffered reader still holds the two payload bytes
  (reading them is what would remain to be done), and the stream has lost all its 7 bytes
  to the read-ahead, the byte of the next packet included.
\<close>

theorem ReadPacket_mismatch_leaves_payload:
  "ReadHeader bufio_Read (bufio_NewReader [0xA1, 0x00, 0x02, 0x07, 0x10, 0x2A, 0xA1])
     = (Inr \<lparr>PayloadLength = 2, Cookie = 7\<rparr>, \<lparr>under = [], buffered = [0x10, 0x2A, 0xA1]\<rparr>)
   \<and> ReadPacket (\<lambda>n. n) [0xA1, 0x00, 0x02, 0x07, 0x10, 0x2A, 0xA1] 9
       = (Inl ErrCookieMismatch, \<lparr>under = [], buffered = [0x10, 0x2A, 0xA1]\<rparr>)
   \<and> io_ReadFull 2 \<lparr>under = [], buffered = [0x10, 0x2A, 0xA1]\<rparr>
       = (Inr [0x10, 0x2A], \<lparr>under = [], buffered = [0xA1]\<rparr>)"
proof -
  have "ReadHeader bufio_Read (bufio_NewReader [0xA1, 0x00, 0x02, 0x07, 0x10, 0x2A, 0xA1])
     = (Inr \<lparr>PayloadLength = 2, Cookie = 7\<rparr>, \<lparr>under = [], buffered = [0x10, 0x2A, 0xA1]\<rparr>)"
    by code_simp
  moreover have "ReadPacket (\<lambda>n. n) [0xA1, 0x00, 0x02, 0x07, 0x10, 0x2A, 0xA1] 9
       = (Inl ErrCookieMismatch :: error + int64 Record list,
          \<lparr>under = [], buffered = [0x10, 0x2A, 0xA1]\<rparr>)"
    by code_simp
  moreover have "io_ReadFull 2 \<lparr>under = [], buffered = [0x10, 0x2A, 0xA1]\<rparr>
       = (Inr [0x10, 0x2A], \<lparr>under = [], buffered = [0xA1]\<rparr>)"
    by code_simp
  ultimately show ?thesis by blast
qed

text \<open>
  Claim C2, amended: when the header decodes and the non-zero expected cookie differs from
  the header's, \<^verbatim>\<open>ReadPacket\<close> returns no records and fails with the cookie-mismatch
  error in the state in which \<^verbatim>\<open>ReadHeader\<close> left its buffered reader: no byte of the
  payload has been read from that reader, and the stream has lost its first 4096 bytes (all
  of them if it is shorter) whatever the declared payload length.
\<close>

theorem ReadPacket_cookie_mismatch:
  assumes "ReadHeader bufio_Read (bufio_NewReader r) = (Inr h, b)"
    and "expectedCookie \<noteq> 0" and "expectedCookie \<noteq> Cookie h"
  shows "ReadPacket fdiv r expectedCookie = (Inl ErrCookieMismatch, b)
    \<and> under b = drop defaultBufSize r
    \<and> buffered b
        = drop (2 + unat (drop_bit 2 (r ! 1 AND 0x0C) + 1) + unat ((r ! 1 AND 0x3) + 1))
            (take defaultBufSize r)"
proof -
  from assms have "ReadPacket fdiv r expectedCookie = (Inl ErrCookieMismatch, b)"
    by (simp add: ReadPacket_def)
  with ReadHeader_bufio_Inr[OF assms(1)] show ?thesis by simp
qed

theorem ReadPacket_cookie_mismatch_witness:
  "ReadPacket (\<lambda>n. n) [0xA1, 0x03, 0x0B, 0x6F, 0x8D, 0xA2, 0x97, 0x10, 0x2A] 1
     = (Inl ErrCookieMismatch :: error + int64 Record list,
        \<lparr>under = [], buffered = [0x10, 0x2A]\<rparr>)"
proof -
  have rh: "ReadHeader bufio_Read
              (bufio_NewReader [0xA1, 0x03, 0x0B, 0x6F, 0x8D, 0xA2, 0x97, 0x10, 0x2A])
     = (Inr \<lparr>PayloadLength = 11, Cookie = 0x6F8DA297\<rparr>, \<lparr>under = [], buffered = [0x10, 0x2A]\<rparr>)"
    by code_simp
  from ReadPacket_cookie_mismatch[OF rh, of 1 "\<lambda>n. n"] show ?thesis by simp
qed

text \<open>
  Claim C4. When \<^verbatim>\<open>ReadPacket\<close> returns records, the header was decoded, exactly
  \<^verbatim>\<open>PayloadLength\<close> bytes were read behind it, the records were decoded from these bytes
  alone, and the sizes of the records add up to \<^verbatim>\<open>PayloadLength\<close>: a record that would
  run over the end of the payload makes \<^verbatim>\<open>ReadRecord\<close>, hence \<^verbatim>\<open>ReadPacket\<close>, fail.
\<close>

theorem ReadPacket_payload_length:
  assumes "ReadPacket fdiv r expectedCookie = (Inr records, b)"
  shows "\<exists>h b1 payload.
           ReadHeader bufio_Read (bufio_NewReader r) = (Inr h, b1)
         \<and> io_ReadFull (nat (PayloadLength h)) b1 = (Inr payload, b)
         \<and> int (length payload) = PayloadLength h
         \<and> readRecords fdiv 0 (PayloadLength h) payload [] = Inr records
         \<and> sum_list (map rec_size records) = PayloadLength h"
proof -
  from assms obtain h b1 payload where
    rh: "ReadHeader bufio_Read (bufio_NewReader r) = (Inr h, b1)"
    and rf: "io_ReadFull (nat (PayloadLength h)) b1 = (Inr payload, b)"
    and rs: "readRecords fdiv 0 (PayloadLength h) payload [] = Inr records"
    by (auto simp: ReadPacket_def Let_def split: prod.splits sum.splits if_splits)
  from ReadHeader_Inr_PayloadLength[OF rh] io_ReadFull_length[OF rf]
  have len: "int (length payload) = PayloadLength h" by simp
  then have "0 + int (length payload) \<le> PayloadLength h" by simp
  from readRecords_sum[OF rs this] have "sum_list (map rec_size records) = PayloadLength h"
    by simp
  with rh rf rs len show ?thesis by blast
qed

theorem ReadPacket_payload_length_witness:
  "ReadPacket (\<lambda>n. n) [0xA1, 0x00, 0x05, 0x07, 0x10, 0x2A, 0x22, 0x06, 0x34] 7
     = (Inr [Record 2 TypeInt (VInt 42), Record 3 TypeDouble (VDouble 1588)],
        \<lparr>under = [], buffered = []\<rparr>)
   \<and> (\<exists>h b1. ReadHeader bufio_Read
                (bufio_NewReader [0xA1, 0x00, 0x05, 0x07, 0x10, 0x2A, 0x22, 0x06, 0x34])
                = (Inr h, b1)
         \<and> sum_list (map rec_size
               [Record 2 TypeInt (VInt 42), Record 3 TypeDouble (VDouble (1588 :: int64))])
             = PayloadLength h)"
proof -
  have rp: "ReadPacket (\<lambda>n. n) [0xA1, 0x00, 0x05, 0x07, 0x10, 0x2A, 0x22, 0x06, 0x34] 7
     = (Inr [Record 2 TypeInt (VInt 42), Record 3 TypeDouble (VDouble (1588 :: int64))],
        \<lparr>under = [], buffered = []\<rparr>)"
    by code_simp
  from ReadPacket_payload_length[OF rp] rp show ?thesis by blast
qed

text \<open>
  Claim C5. The value of a struct decoded by \<^verbatim>\<open>ReadRecord\<close> is the list of the key/value
  pairs that stand on the wire behind the struct's header byte, in the order of the wire
  and up to the end-of-struct mark; every pair of the wire is an element of the list, so
  pairs with equal keys are all retained.
\<close>

theorem ReadRecord_struct_order:
  assumes "ReadRecord fdiv r = (Inr rec, y)" and "rec_Type rec = TypeStruct"
  shows "\<exists>items recsize len buf r0 r1.
           readRecordHead r = (Inr (recsize, TypeStruct, len, buf), r0)
         \<and> rec_Value rec = VStruct items
         \<and> wirePairs fdiv items r0 = Some r1
         \<and> ReadRecord fdiv r1 = (Inl errEndOfStruct, y)"
proof -
  from ReadRecord_Inr_struct[OF assms] obtain recsize len buf r0 where
    hd: "readRecordHead r = (Inr (recsize, TypeStruct, len, buf), r0)"
    and rs: "readStructItems fdiv recsize TypeStruct [] r0 = (Inr rec, y)"
    by blast
  from readStructItems_order(2)[of fdiv recsize TypeStruct "[]" r0] rs
  obtain items r1 where "rec_Value rec = VStruct items" "wirePairs fdiv items r0 = Some r1"
    "ReadRecord fdiv r1 = (Inl errEndOfStruct, y)"
    by auto
  with hd show ?thesis by blast
qed

theorem ReadRecord_struct_order_witness:
  "ReadRecord (\<lambda>n. n)
     [0x03, 0x25, 0x61, 0x00, 0x10, 0x01, 0x25, 0x61, 0x00, 0x10, 0x02, 0x25, 0x62, 0x00, 0x10,
      0x03, 0x83]
     = (Inr (Record 17 TypeStruct
          (VStruct [StructItem [0x61] (Record 2 TypeInt (VInt 1)),
                    StructItem [0x61] (Record 2 TypeInt (VInt 2)),
                    StructItem [0x62] (Record 2 TypeInt (VInt 3))])), [])
   \<and> (\<exists>items recsize len buf r0 r1.
         readRecordHead
           [0x03, 0x25, 0x61, 0x00, 0x10, 0x01, 0x25, 0x61, 0x00, 0x10, 0x02, 0x25, 0x62, 0x00,
            0x10, 0x03, 0x83]
           = (Inr (recsize, TypeStruct, len, buf), r0)
       \<and> VStruct [StructItem [0x61] (Record 2 TypeInt (VInt 1)),
                  StructItem [0x61] (Record 2 TypeInt (VInt 2)),
                  StructItem [0x62] (Record 2 TypeInt (VInt (3 :: int64)))] = VStruct items
       \<and> wirePairs (\<lambda>n. n) items r0 = Some r1
       \<and> ReadRecord (\<lambda>n. n) r1 = (Inl errEndOfStruct, []))"
proof -
  have rr: "ReadRecord (\<lambda>n. n)
     [0x03, 0x25, 0x61, 0x00, 0x10, 0x01, 0x25, 0x61, 0x00, 0x10, 0x02, 0x25, 0x62, 0x00, 0x10,
      0x03, 0x83]
     = (Inr (Record 17 TypeStruct
          (VStruct [StructItem [0x61] (Record 2 TypeInt (VInt 1)),
                    StructItem [0x61] (Record 2 TypeInt (VInt 2)),
                    StructItem [0x62] (Record 2 TypeInt (VInt (3 :: int64)))])), [])"
    by code_simp
  from ReadRecord_struct_order[OF rr] rr show ?thesis by simp
qed

text \<open>
  Claim C8. In a struct, behind any pairs already decoded, a record in key position that
  carries another tag than the attribute-name tag makes \<^verbatim>\<open>ReadRecord\<close> fail with the
  \<^verbatim>\<open>struct contains something else than avp\<close> error; a key record with the
  attribute-name tag carries a string, and with any value record that decodes behind it
  the pair is appended to the pairs decoded so far, and decoding goes on behind it.
\<close>

theorem ReadRecord_struct_key:
  assumes "readRecordHead r = (Inr (recsize, TypeStruct, len, buf), r0)"
    and "wirePairs fdiv items r0 = Some r1"
    and "ReadRecord fdiv r1 = (Inr k, r2)"
  shows "(rec_Type k \<noteq> TypeAVP \<longrightarrow> ReadRecord fdiv r = (Inl (ErrNotAVP (rec_Type k)), r2))
       \<and> (rec_Type k = TypeAVP \<longrightarrow>
            (\<forall>v r3. ReadRecord fdiv r2 = (Inr v, r3) \<longrightarrow>
               (\<exists>key n. rec_Value k = VString key
                  \<and> wirePairs fdiv (items @ [StructItem key v]) r0 = Some r3
                  \<and> ReadRecord fdiv r
                      = readStructItems fdiv n TypeStruct (items @ [StructItem key v]) r3)))"
proof (intro conjI impI allI)
  assume t: "rec_Type k \<noteq> TypeAVP"
  from readStructItems_wirePairs[OF assms(2), of recsize TypeStruct "[]"] obtain n where
    "readStructItems fdiv recsize TypeStruct [] r0 = readStructItems fdiv n TypeStruct items r1"
    by auto
  also from assms(3) t have "\<dots> = (Inl (ErrNotAVP (rec_Type k)), r2)"
    by (simp add: readStructItems.simps[of fdiv n TypeStruct items r1])
  finally show "ReadRecord fdiv r = (Inl (ErrNotAVP (rec_Type k)), r2)"
    by (simp add: ReadRecord_struct_head[OF assms(1)])
next
  fix v r3
  assume t: "rec_Type k = TypeAVP" and v: "ReadRecord fdiv r2 = (Inr v, r3)"
  from ReadRecord_AVP_string[OF assms(3) t] obtain key where key: "rec_Value k = VString key"
    by blast
  from wirePairs_snoc[OF assms(2,3) t key v]
  have wp: "wirePairs fdiv (items @ [StructItem key v]) r0 = Some r3" .
  from readStructItems_wirePairs[OF wp, of recsize TypeStruct "[]"] obtain n where
    "readStructItems fdiv recsize TypeStruct [] r0
       = readStructItems fdiv n TypeStruct (items @ [StructItem key v]) r3"
    by auto
  then have "ReadRecord fdiv r = readStructItems fdiv n TypeStruct (items @ [StructItem key v]) r3"
    by (simp add: ReadRecord_struct_head[OF assms(1)])
  with key wp show "\<exists>key n. rec_Value k = VString key
                  \<and> wirePairs fdiv (items @ [StructItem key v]) r0 = Some r3
                  \<and> ReadRecord fdiv r
                      = readStructItems fdiv n TypeStruct (items @ [StructItem key v]) r3"
    by blast
qed

theorem ReadRecord_struct_key_witness:
  "ReadRecord (\<lambda>n. n) [0x03, 0x25, 0x61, 0x00, 0x10, 0x01, 0x11, 0x00, 0x10, 0x02, 0x83]
     = (Inl (ErrNotAVP TypeString), [0x10, 0x02, 0x83])
   \<and> (\<exists>n. wirePairs (\<lambda>n. n) [StructItem [0x61] (Record 2 TypeInt (VInt 1))]
              [0x25, 0x61, 0x00, 0x10, 0x01, 0x83] = Some [0x83]
         \<and> ReadRecord (\<lambda>n. n) [0x03, 0x25, 0x61, 0x00, 0x10, 0x01, 0x83]
             = readStructItems (\<lambda>n. n) n TypeStruct
                 [StructItem [0x61] (Record 2 TypeInt (VInt 1))] [0x83])"
proof -
  have h1: "readRecordHead [0x03, 0x25, 0x61, 0x00, 0x10, 0x01, 0x11, 0x00, 0x10, 0x02, 0x83]
      = (Inr (1, TypeStruct, 0, []), [0x25, 0x61, 0x00, 0x10, 0x01, 0x11, 0x00, 0x10, 0x02, 0x83])"
    by code_simp
  have w1: "wirePairs (\<lambda>n. n) [StructItem [0x61] (Record 2 TypeInt (VInt (1 :: int64)))]
      [0x25, 0x61, 0x00, 0x10, 0x01, 0x11, 0x00, 0x10, 0x02, 0x83]
      = Some [0x11, 0x00, 0x10, 0x02, 0x83]"
    by code_simp
  have k1: "ReadRecord (\<lambda>n. n) [0x11, 0x00, 0x10, 0x02, 0x83]
      = (Inr (Record 2 TypeString (VString [])), [0x10 :: byte, 0x02, 0x83])"
    by code_simp
  have a: "ReadRecord (\<lambda>n. n) [0x03, 0x25, 0x61, 0x00, 0x10, 0x01, 0x11, 0x00, 0x10, 0x02, 0x83]
     = (Inl (ErrNotAVP TypeString) :: error + int64 Record, [0x10, 0x02, 0x83])"
    using ReadRecord_struct_key[OF h1 w1 k1] by (simp add: Type_defs)
  have h2: "readRecordHead [0x03, 0x25, 0x61, 0x00, 0x10, 0x01, 0x83]
      = (Inr (1, TypeStruct, 0, []), [0x25, 0x61, 0x00, 0x10, 0x01, 0x83])"
    by code_simp
  have w2: "wirePairs (\<lambda>n. n) ([] :: int64 StructItem list) [0x25, 0x61, 0x00, 0x10, 0x01, 0x83]
      = Some [0x25, 0x61, 0x00, 0x10, 0x01, 0x83]"
    by simp
  have k2: "ReadRecord (\<lambda>n. n) [0x25, 0x61, 0x00, 0x10, 0x01, 0x83]
      = (Inr (Record 3 TypeAVP (VString [0x61])), [0x10 :: byte, 0x01, 0x83])"
    by code_simp
  have v2: "ReadRecord (\<lambda>n. n) [0x10, 0x01, 0x83]
      = (Inr (Record 2 TypeInt (VInt (1 :: int64))), [0x83])"
    by code_simp
  have b: "\<exists>n. wirePairs (\<lambda>n. n) [StructItem [0x61] (Record 2 TypeInt (VInt 1))]
              [0x25, 0x61, 0x00, 0x10, 0x01, 0x83] = Some [0x83]
         \<and> ReadRecord (\<lambda>n. n) [0x03, 0x25, 0x61, 0x00, 0x10, 0x01, 0x83]
             = readStructItems (\<lambda>n. n) n TypeStruct
                 [StructItem [0x61] (Record 2 TypeInt (VInt (1 :: int64)))] [0x83]"
    using ReadRecord_struct_key[OF h2 w2 k2] v2 by auto
  from a b show ?thesis by blast
qed

text \<open>
  Claim C6, as stated: \<^verbatim>\<open>ReadRecord\<close> has a maximum nesting depth and fails with a
  depth error beyond it. There is no such maximum: structs nested to any depth decode
  (here to depth 3, with the record spelled out, and to every depth \<open>d\<close>), and the errors
  \<^verbatim>\<open>ReadRecord\<close> can return include none for the depth.
\<close>

theorem ReadRecord_no_depth_limit:
  "ReadRecord (\<lambda>n. n) [0x03, 0x05, 0x03, 0x05, 0x03, 0x05, 0x03, 0x83, 0x83, 0x83, 0x83]
     = (Inr (Record 11 TypeStruct (VStruct [StructItem []
          (Record 8 TypeStruct (VStruct [StructItem []
             (Record 5 TypeStruct (VStruct [StructItem []
                (Record 2 TypeStruct (VStruct []))]))]))])), [])
   \<and> (\<forall>d. \<exists>rec. ReadRecord (\<lambda>n. n) (nestedStruct d) = (Inr rec, [])
              \<and> rec = (nestedRecord d :: int64 Record))"
proof -
  have "ReadRecord (\<lambda>n. n) [0x03, 0x05, 0x03, 0x05, 0x03, 0x05, 0x03, 0x83, 0x83, 0x83, 0x83]
     = (Inr (Record 11 TypeStruct (VStruct [StructItem []
          (Record 8 TypeStruct (VStruct [StructItem []
             (Record 5 TypeStruct (VStruct [StructItem []
                (Record 2 TypeStruct (VStruct []))]))]))])) :: error + int64 Record, [])"
    by code_simp
  moreover have "\<exists>rec. ReadRecord (\<lambda>n. n) (nestedStruct d) = (Inr rec, [])
              \<and> rec = (nestedRecord d :: int64 Record)" for d
    using ReadRecord_nestedStruct[of "\<lambda>n. n" d "[]"] by simp
  ultimately show ?thesis by blast
qed

text \<open>
  Claim C6, amended: \<^verbatim>\<open>ReadRecord\<close> imposes no maximum nesting depth. It recurses once
  per nesting level, and a nest of structs of any depth \<open>d\<close> decodes to the record of that
  depth, whatever follows it in the reader; a nest of depth \<open>d\<close> takes \<open>3 * d + 2\<close> bytes.
  The recursion is bounded by the length of the input alone, which is the measure of the
  termination proof of \<open>ReadRecord\<close>.
\<close>

theorem ReadRecord_any_depth:
  "ReadRecord fdiv (nestedStruct d @ rest) = (Inr (nestedRecord d), rest)
   \<and> length (nestedStruct d) = 3 * d + 2
   \<and> rec_size (nestedRecord d :: 'f Record) = 3 * int d + 2"
proof -
  have "length (nestedStruct d) = 3 * d + 2" by (induction d) simp_all
  moreover have "rec_size (nestedRecord d :: 'f Record) = 3 * int d + 2"
    by (induction d) simp_all
  ultimately show ?thesis using ReadRecord_nestedStruct[of fdiv d rest] by simp
qed

end
